theory Spec2Isabelle
  imports Main "HOL-Library.Product_Lexorder" "HOL-Library.List_Lexorder"
begin

section \<open>String helpers of the Python runtime\<close>

text \<open>
  Strings are \<open>char list\<close>s; the tags handled by \<^verbatim>\<open>compile_bitcoind_gui.py\<close> are ASCII.
  \<open>is_digit\<close> is the class \<^verbatim>\<open>\d\<close> on ASCII, \<open>py_int\<close> is \<^verbatim>\<open>int(s)\<close> on a string of
  decimal digits (always the case where the source calls it: the argument is a regex group
  \<^verbatim>\<open>\d+\<close> or a component of a key the source printed itself). The results are never
  negative, so they are natural numbers. Two things of CPython are outside the model:
  decimal digits beyond ASCII, which \<^verbatim>\<open>\d\<close> and \<^verbatim>\<open>int\<close> accept as well, and the limit
  on the number of digits that \<^verbatim>\<open>int\<close> converts.
\<close>

definition is_digit :: "char \<Rightarrow> bool" where
  "is_digit c = (c \<in> set ''0123456789'')"

definition digit_val :: "char \<Rightarrow> nat" where
  "digit_val c = of_char c - 48"

definition py_int :: "string \<Rightarrow> nat" where
  "py_int s = foldl (\<lambda>a c. 10 * a + digit_val c) 0 s"

definition digit_char :: "nat \<Rightarrow> char" where
  "digit_char d = ''0123456789'' ! d"

text \<open>\<^verbatim>\<open>str(n)\<close> for a non-negative integer, as the f-strings of the source print it.\<close>

function py_str :: "nat \<Rightarrow> string" where
  "py_str n = (if n < 10 then [digit_char n] else py_str (n div 10) @ [digit_char (n mod 10)])"
  by pat_completeness auto
termination
  by (relation "measure id") auto

declare py_str.simps [simp del]

text \<open>\<^verbatim>\<open>s.lstrip('v')\<close>: every leading \<open>v\<close> goes.\<close>

definition lstrip_v :: "string \<Rightarrow> string" where
  "lstrip_v s = dropWhile (\<lambda>c. c = CHR ''v'') s"

text \<open>\<^verbatim>\<open>s.lower()\<close> on ASCII.\<close>

definition lower_char :: "char \<Rightarrow> char" where
  "lower_char c =
     (case map_of (zip ''ABCDEFGHIJKLMNOPQRSTUVWXYZ'' ''abcdefghijklmnopqrstuvwxyz'') c of
        Some l \<Rightarrow> l
      | None \<Rightarrow> c)"

definition lower :: "string \<Rightarrow> string" where
  "lower s = map lower_char s"

text \<open>\<^verbatim>\<open>sub in s\<close> for strings: \<open>sub\<close> occurs in \<open>s\<close> as a contiguous substring.\<close>

fun py_in :: "string \<Rightarrow> string \<Rightarrow> bool" where
  "py_in sub [] = (sub = [])"
| "py_in sub (c # s) = (take (length sub) (c # s) = sub \<or> py_in sub s)"

text \<open>\<^verbatim>\<open>s.split('.')\<close>.\<close>

fun split_on :: "char \<Rightarrow> string \<Rightarrow> string list" where
  "split_on d [] = [[]]"
| "split_on d (c # s) =
     (if c = d then [] # split_on d s
      else (case split_on d s of
              [] \<Rightarrow> [[c]]
            | w # ws \<Rightarrow> (c # w) # ws))"

text \<open>\<^verbatim>\<open>sep.join(parts)\<close>.\<close>

fun join :: "string \<Rightarrow> string list \<Rightarrow> string" where
  "join sep [] = []"
| "join sep [p] = p"
| "join sep (p # q # ps) = p @ sep @ join sep (q # ps)"

section \<open>Version logic\<close>

text \<open>
  \<^verbatim>\<open>re.match(r"(\d+)\.(\d+)", tag)\<close>: a match at the start of the string, returning the two
  groups. \<^verbatim>\<open>\d+\<close> is greedy; a shorter first group can never be followed by the dot, so
  the first group is the maximal run of digits, and so is the second.
\<close>

definition re_match_version :: "string \<Rightarrow> (string \<times> string) option" where
  "re_match_version s =
     (let g1 = takeWhile is_digit s in
      case dropWhile is_digit s of
        [] \<Rightarrow> None
      | c # r \<Rightarrow>
          (let g2 = takeWhile is_digit r in
           if g1 \<noteq> [] \<and> c = CHR ''.'' \<and> g2 \<noteq> [] then Some (g1, g2) else None))"

definition parse_version :: "string \<Rightarrow> nat \<times> nat" where
  "parse_version tag =
     (case re_match_version (lstrip_v tag) of
        Some (g1, g2) \<Rightarrow> (py_int g1, py_int g2)
      | None \<Rightarrow> (0, 0))"

definition use_cmake :: "string \<Rightarrow> bool" where
  "use_cmake version = (case parse_version version of (major, _) \<Rightarrow> major \<ge> 25)"

section \<open>Version catalog\<close>

text \<open>
  Exceptions are values. A release record of the GitHub listing is reduced to what the
  source reads of it: \<^verbatim>\<open>rel["tag_name"]\<close>, absent when the lookup (or the following
  \<^verbatim>\<open>tag.lower()\<close>) would raise. The outcome of \<^verbatim>\<open>requests.get\<close>,
  \<^verbatim>\<open>raise_for_status\<close> and \<^verbatim>\<open>r.json()\<close> is either an exception or the decoded list.
\<close>

datatype exn =
    RequestException
  | HTTPError
  | JSONDecodeError
  | KeyError
  | IndexError
  | OSError
  | RuntimeError string

record release =
  tag_name :: "string option"

type_synonym response = "exn + release list"

text \<open>
  The collecting loop of \<^verbatim>\<open>get_bitcoin_versions\<close> (limit 20) and of
  \<^verbatim>\<open>get_electrs_versions\<close> (limit 3): release candidates are skipped, the loop breaks as
  soon as the list has \<open>limit\<close> entries.
\<close>

fun collect_non_rc :: "nat \<Rightarrow> release list \<Rightarrow> string list \<Rightarrow> exn + string list" where
  "collect_non_rc limit [] acc = Inr acc"
| "collect_non_rc limit (rel # rels) acc =
     (case tag_name rel of
        None \<Rightarrow> Inl KeyError
      | Some tag \<Rightarrow>
          if py_in ''rc'' (lower tag) then collect_non_rc limit rels acc
          else (let acc' = acc @ [tag] in
                if length acc' = limit then Inr acc' else collect_non_rc limit rels acc'))"

text \<open>\<^verbatim>\<open>key = f"{major}.{minor}"\<close>.\<close>

definition version_key :: "string \<Rightarrow> string" where
  "version_key tag = (case parse_version tag of (major, minor) \<Rightarrow> py_str major @ ''.'' @ py_str minor)"

text \<open>
  \<^verbatim>\<open>version_groups\<close> is a dict, which keeps insertion order: an association list with
  one entry per key.
\<close>

type_synonym groups = "(string \<times> string list) list"

definition group_add :: "groups \<Rightarrow> string \<Rightarrow> groups" where
  "group_add version_groups tag =
     (let key = version_key tag in
      if key \<notin> fst ` set version_groups
      then version_groups @ [(key, [tag])]
      else map (\<lambda>(k, tags). if k = key then (k, tags @ [tag]) else (k, tags)) version_groups)"

definition group_versions :: "string list \<Rightarrow> groups" where
  "group_versions all_versions = foldl group_add [] all_versions"

text \<open>
  \<^verbatim>\<open>sorted(xs, key=f, reverse=True)\<close>: Python's sort is stable, also when reversed (equal
  keys keep their original order), which is a stable ascending sort of the reversed list,
  reversed.
\<close>

definition sorted_reverse :: "('a \<Rightarrow> 'k::linorder) \<Rightarrow> 'a list \<Rightarrow> 'a list" where
  "sorted_reverse f xs = rev (sort_key f (rev xs))"

text \<open>\<^verbatim>\<open>tuple(map(int, x.split('.')))\<close>; tuples compare lexicographically, as lists do.\<close>

definition key_tuple :: "string \<Rightarrow> nat list" where
  "key_tuple x = map py_int (split_on CHR ''.'' x)"

text \<open>
  The selecting loop: for each key in sorted order the group is sorted by
  \<^verbatim>\<open>parse_version\<close>, newest first, and its first element kept; the loop breaks at 5.
\<close>

fun pick_latest :: "groups \<Rightarrow> string list \<Rightarrow> string list \<Rightarrow> exn + string list" where
  "pick_latest version_groups [] acc = Inr acc"
| "pick_latest version_groups (key # keys) acc =
     (case map_of version_groups key of
        None \<Rightarrow> Inl KeyError
      | Some tags \<Rightarrow>
          (case sorted_reverse parse_version tags of
             [] \<Rightarrow> Inl IndexError
           | t # _ \<Rightarrow>
               (let acc' = acc @ [t] in
                if length acc' = 5 then Inr acc' else pick_latest version_groups keys acc')))"

text \<open>The body of the \<^verbatim>\<open>try\<close> block, then the function with its \<^verbatim>\<open>except Exception\<close>.\<close>

definition get_bitcoin_versions_try :: "response \<Rightarrow> exn + string list" where
  "get_bitcoin_versions_try r =
     (case r of
        Inl e \<Rightarrow> Inl e
      | Inr rels \<Rightarrow>
          (case collect_non_rc 20 rels [] of
             Inl e \<Rightarrow> Inl e
           | Inr all_versions \<Rightarrow>
               (let version_groups = group_versions all_versions in
                pick_latest version_groups
                  (sorted_reverse key_tuple (map fst version_groups)) [])))"

definition get_bitcoin_versions :: "response \<Rightarrow> string list" where
  "get_bitcoin_versions r =
     (case get_bitcoin_versions_try r of Inl e \<Rightarrow> [] | Inr filtered_versions \<Rightarrow> filtered_versions)"

definition get_electrs_versions_try :: "response \<Rightarrow> exn + string list" where
  "get_electrs_versions_try r =
     (case r of Inl e \<Rightarrow> Inl e | Inr rels \<Rightarrow> collect_non_rc 3 rels [])"

definition get_electrs_versions :: "response \<Rightarrow> string list" where
  "get_electrs_versions r =
     (case get_electrs_versions_try r of Inl e \<Rightarrow> [] | Inr versions \<Rightarrow> versions)"

text \<open>A listing in which every record has its tag.\<close>

definition releases :: "string list \<Rightarrow> response" where
  "releases tags = Inr (map (\<lambda>t. \<lparr>tag_name = Some t\<rparr>) tags)"

section \<open>Process state and the host\<close>

text \<open>
  Dictionaries are objects: \<^verbatim>\<open>os.environ\<close> is one, \<^verbatim>\<open>os.environ.copy()\<close> allocates
  another, and \<^verbatim>\<open>env[key] = value\<close> writes to the object the variable refers to. The
  process state holds the dictionaries by address, the next free address, and the trace
  of what the program did to the outside (commands, file operations, dialogs, and the
  warnings the claims are about; the other calls of \<^verbatim>\<open>log\<close> only write to the GUI
  text widget and are left out).
\<close>

type_synonym env = "string \<rightharpoonup> string"

type_synonym addr = nat

datatype warning =
    Binary_not_found string
  | Failed_to_copy string
  | No_binaries_copied
  | Rustc_check_failed
  | Verification_failed string

datatype event =
    Ran string "string option"
  | Made_dirs string
  | Copy2 string string
  | Chmod string nat
  | Asked string
  | Showed_error string
  | Logged warning

record process =
  dicts :: "addr \<Rightarrow> env"
  next_addr :: addr
  trace :: "event list"

definition os_environ :: addr where
  "os_environ = 0"

definition dict_copy :: "addr \<Rightarrow> process \<Rightarrow> addr \<times> process" where
  "dict_copy a p =
     (next_addr p, p\<lparr>dicts := (dicts p)(next_addr p := dicts p a), next_addr := Suc (next_addr p)\<rparr>)"

definition dict_set :: "addr \<Rightarrow> string \<Rightarrow> string \<Rightarrow> process \<Rightarrow> process" where
  "dict_set a key v p = p\<lparr>dicts := (dicts p)(a := (dicts p a)(key \<mapsto> v))\<rparr>"

definition emit :: "event \<Rightarrow> process \<Rightarrow> process" where
  "emit ev p = p\<lparr>trace := trace p @ [ev]\<rparr>"

text \<open>
  What \<^verbatim>\<open>subprocess.run\<close> and \<^verbatim>\<open>subprocess.Popen\<close> give back: the child could not be
  started (an \<^verbatim>\<open>OSError\<close>, such as \<^verbatim>\<open>FileNotFoundError\<close> when the program is not on the
  \<^verbatim>\<open>PATH\<close> of the environment passed), or it ran and left a return code and its output.
\<close>

datatype completed = Spawn_error | Completed int string

datatype architecture = Apple_silicon | Intel | Unknown

text \<open>
  The host: the module globals computed at import (\<^verbatim>\<open>ARCH\<close>, \<^verbatim>\<open>BREW_PREFIX\<close>), the
  expansion of \<^verbatim>\<open>~\<close>, and the answers of the file system, of the programs run and of the
  user, each as a function of the arguments of the call.
\<close>

record host =
  ARCH :: architecture
  BREW_PREFIX :: "string option"
  home_dir :: string
  isdir :: "string \<Rightarrow> bool"
  path_exists :: "string \<Rightarrow> bool"
  makedirs_raises :: "string \<Rightarrow> bool"
  copy2_raises :: "string \<Rightarrow> string \<Rightarrow> bool"
  chmod_raises :: "string \<Rightarrow> bool"
  cargo_version :: "env \<Rightarrow> completed"
  rustc_version :: "env \<Rightarrow> completed"
  git_rev_parse_head :: "string \<Rightarrow> env \<Rightarrow> completed"
  git_rev_list :: "string \<Rightarrow> string \<Rightarrow> env \<Rightarrow> completed"
  popen :: "string \<Rightarrow> string option \<Rightarrow> env \<Rightarrow> completed"
  askyesno :: "string \<Rightarrow> bool"

text \<open>A step of a pipeline: an exception or a value, and the state after it.\<close>

type_synonym 'a step = "process \<Rightarrow> (exn + 'a) \<times> process"

definition and_then :: "'a step \<Rightarrow> ('a \<Rightarrow> 'b step) \<Rightarrow> 'b step" where
  "and_then m f p = (case m p of (Inl e, p') \<Rightarrow> (Inl e, p') | (Inr x, p') \<Rightarrow> f x p')"

definition done_with :: "'a \<Rightarrow> 'a step" where
  "done_with x p = (Inr x, p)"

definition raise :: "exn \<Rightarrow> 'a step" where
  "raise e p = (Inl e, p)"

definition effect :: "(process \<Rightarrow> process) \<Rightarrow> unit step" where
  "effect f p = (Inr (), f p)"

section \<open>Paths and whitespace\<close>

text \<open>\<^verbatim>\<open>os.path.join(a, b)\<close> and \<^verbatim>\<open>os.path.basename(p)\<close> of \<^verbatim>\<open>posixpath\<close>.\<close>

definition path_join :: "string \<Rightarrow> string \<Rightarrow> string" where
  "path_join a b =
     (if b \<noteq> [] \<and> hd b = CHR ''/'' then b
      else if a = [] \<or> last a = CHR ''/'' then a @ b
      else a @ ''/'' @ b)"

definition basename :: "string \<Rightarrow> string" where
  "basename p = rev (takeWhile (\<lambda>c. c \<noteq> CHR ''/'') (rev p))"

text \<open>\<^verbatim>\<open>s.strip()\<close>: ASCII whitespace goes from both ends.\<close>

definition is_space :: "char \<Rightarrow> bool" where
  "is_space c = (of_char c \<in> {9, 10, 11, 12, 13, 28, 29, 30, 31, 32 :: nat})"

definition strip :: "string \<Rightarrow> string" where
  "strip s = rev (dropWhile is_space (rev (dropWhile is_space s)))"

section \<open>Source verification\<close>

text \<open>
  \<^verbatim>\<open>verify_git_commit\<close>: both \<^verbatim>\<open>git\<close> calls run in \<^verbatim>\<open>repo_dir\<close> with the inherited
  environment; whatever is raised inside is caught and gives \<^verbatim>\<open>False\<close>.
\<close>

definition verify_git_commit :: "host \<Rightarrow> string \<Rightarrow> string \<Rightarrow> process \<Rightarrow> bool" where
  "verify_git_commit h repo_dir expected_tag p =
     (case git_rev_parse_head h repo_dir (dicts p os_environ) of
        Spawn_error \<Rightarrow> False
      | Completed returncode stdout \<Rightarrow>
          if returncode \<noteq> 0 then False
          else (let current_commit = strip stdout in
                case git_rev_list h expected_tag repo_dir (dicts p os_environ) of
                  Spawn_error \<Rightarrow> False
                | Completed returncode' stdout' \<Rightarrow>
                    if returncode' \<noteq> 0 then False
                    else (let tag_commit = strip stdout' in current_commit = tag_commit)))"

definition verify_source_integrity :: "host \<Rightarrow> string \<Rightarrow> string \<Rightarrow> string \<Rightarrow> process \<Rightarrow> bool \<times> process" where
  "verify_source_integrity h repo_dir project_name version p =
     (if verify_git_commit h repo_dir version p then (True, p)
      else (let p1 = emit (Logged (Verification_failed project_name)) p;
                p2 = emit (Asked ''Source Verification Warning'') p1
            in (askyesno h ''Source Verification Warning'', p2)))"

section \<open>Optimization flags\<close>

text \<open>The flag dictionaries, in insertion order.\<close>

definition get_optimization_flags :: "architecture \<Rightarrow> bool \<Rightarrow> (string \<times> string) list" where
  "get_optimization_flags arch use_aggressive =
     (case arch of
        Apple_silicon \<Rightarrow>
          (let base_flags = [''-mcpu=apple-m1'', ''-O2'', ''-fomit-frame-pointer'', ''-fno-common''] in
           if use_aggressive
           then (let aggressive_flags = [''-O3'', ''-flto'', ''-march=armv8.5-a+fp16+crypto+dotprod''] in
                 [(''CFLAGS'', join '' '' (base_flags @ aggressive_flags)),
                  (''CXXFLAGS'', join '' '' (base_flags @ aggressive_flags)),
                  (''LDFLAGS'', ''-flto'')])
           else [(''CFLAGS'', join '' '' base_flags),
                 (''CXXFLAGS'', join '' '' base_flags),
                 (''LDFLAGS'', '''')])
      | Intel \<Rightarrow>
          (let base_flags = [''-march=native'', ''-O2'', ''-fomit-frame-pointer'', ''-fno-common''] in
           if use_aggressive
           then (let aggressive_flags = [''-O3'', ''-flto'', ''-mtune=native''] in
                 [(''CFLAGS'', join '' '' (base_flags @ aggressive_flags)),
                  (''CXXFLAGS'', join '' '' (base_flags @ aggressive_flags)),
                  (''LDFLAGS'', ''-flto'')])
           else [(''CFLAGS'', join '' '' base_flags),
                 (''CXXFLAGS'', join '' '' base_flags),
                 (''LDFLAGS'', '''')])
      | Unknown \<Rightarrow>
          [(''CFLAGS'', ''-O2''), (''CXXFLAGS'', ''-O2''), (''LDFLAGS'', '''')])"

definition get_rust_optimization_flags :: "bool \<Rightarrow> (string \<times> string) list" where
  "get_rust_optimization_flags use_aggressive =
     (if use_aggressive
      then [(''RUSTFLAGS'', ''-C opt-level=3 -C target-cpu=native''),
            (''CARGO_PROFILE_RELEASE_LTO'', ''fat''),
            (''CARGO_PROFILE_RELEASE_OPT_LEVEL'', ''3''),
            (''CARGO_PROFILE_RELEASE_EMBED_BITCODE'', ''yes'')]
      else [(''RUSTFLAGS'', ''-C opt-level=2 -C target-cpu=native''),
            (''CARGO_PROFILE_RELEASE_OPT_LEVEL'', ''2'')])"

text \<open>\<^verbatim>\<open>for key, value in flags.items(): if value: env[key] = value\<close>.\<close>

fun set_flags :: "addr \<Rightarrow> (string \<times> string) list \<Rightarrow> process \<Rightarrow> process" where
  "set_flags env [] p = p"
| "set_flags env ((key, v) # flags) p =
     set_flags env flags (if v \<noteq> [] then dict_set env key v p else p)"

section \<open>Environment setup\<close>

text \<open>The module-level assignment to \<^verbatim>\<open>os.environ["PATH"]\<close>, run once at import.\<close>

definition module_path :: "host \<Rightarrow> string" where
  "module_path h =
     ''/opt/homebrew/bin:/usr/local/bin:/usr/bin:/bin:/usr/sbin:/sbin:'' @ home_dir h @ ''/.cargo/bin''"

definition module_init :: "host \<Rightarrow> process \<Rightarrow> process" where
  "module_init h p = dict_set os_environ ''PATH'' (module_path h) p"

text \<open>
  The components of the search path, in the order \<^verbatim>\<open>setup_build_environment\<close> appends
  them; the last one is the inherited \<^verbatim>\<open>PATH\<close>, as one string.
\<close>

definition path_components :: "host \<Rightarrow> string \<Rightarrow> string list" where
  "path_components h inherited =
     (case BREW_PREFIX h of None \<Rightarrow> [] | Some prefix \<Rightarrow> [prefix @ ''/bin''])
     @ [''/opt/homebrew/bin'', ''/usr/local/bin'']
     @ concat (map (\<lambda>rust_path. case rust_path of
                      None \<Rightarrow> []
                    | Some q \<Rightarrow> if q \<noteq> [] \<and> isdir h q then [q] else [])
         [Some (home_dir h @ ''/.cargo/bin''),
          map_option (\<lambda>prefix. prefix @ ''/bin'') (BREW_PREFIX h)])
     @ concat (map (\<lambda>llvm_path. case llvm_path of
                      None \<Rightarrow> []
                    | Some q \<Rightarrow> if q \<noteq> [] \<and> isdir h q then [q] else [])
         [map_option (\<lambda>prefix. prefix @ ''/opt/llvm/bin'') (BREW_PREFIX h),
          Some ''/opt/homebrew/opt/llvm/bin'',
          Some ''/usr/local/opt/llvm/bin''])
     @ [inherited]"

text \<open>The loop that removes duplicates, with its set \<^verbatim>\<open>seen\<close>.\<close>

fun unique_paths :: "string list \<Rightarrow> string set \<Rightarrow> string list \<Rightarrow> string list" where
  "unique_paths [] seen acc = acc"
| "unique_paths (q # qs) seen acc =
     (if q \<noteq> [] \<and> q \<notin> seen then unique_paths qs (insert q seen) (acc @ [q])
      else unique_paths qs seen acc)"

text \<open>The first LLVM prefix that is a directory sets both library variables.\<close>

fun llvm_setup :: "host \<Rightarrow> addr \<Rightarrow> string option list \<Rightarrow> process \<Rightarrow> process" where
  "llvm_setup h env [] p = p"
| "llvm_setup h env (llvm_prefix # rest) p =
     (case llvm_prefix of
        None \<Rightarrow> llvm_setup h env rest p
      | Some q \<Rightarrow>
          if q \<noteq> [] \<and> isdir h q
          then dict_set env ''DYLD_LIBRARY_PATH'' (q @ ''/lib'')
                 (dict_set env ''LIBCLANG_PATH'' (q @ ''/lib'') p)
          else llvm_setup h env rest p)"

definition setup_build_environment :: "host \<Rightarrow> bool \<Rightarrow> process \<Rightarrow> addr \<times> process" where
  "setup_build_environment h use_aggressive_opts p =
     (case dict_copy os_environ p of (env, p1) \<Rightarrow>
        (let inherited = (case dicts p1 env ''PATH'' of None \<Rightarrow> [] | Some v \<Rightarrow> v);
             p2 = dict_set env ''PATH''
                    (join '':'' (unique_paths (path_components h inherited) {} [])) p1;
             p3 = llvm_setup h env
                    [map_option (\<lambda>prefix. prefix @ ''/opt/llvm'') (BREW_PREFIX h),
                     Some ''/opt/homebrew/opt/llvm'',
                     Some ''/usr/local/opt/llvm''] p2;
             p4 = set_flags env (get_optimization_flags (ARCH h) use_aggressive_opts) p3
         in (env, p4)))"

section \<open>Running commands\<close>

text \<open>
  \<^verbatim>\<open>run_command(cmd, cwd, env)\<close>: without an environment the command gets a copy of
  \<^verbatim>\<open>os.environ\<close>; a return code other than 0 raises \<^verbatim>\<open>RuntimeError\<close>.
\<close>

definition run_command :: "host \<Rightarrow> string \<Rightarrow> string option \<Rightarrow> addr option \<Rightarrow> int step" where
  "run_command h cmd cwd env p =
     (case (case env of None \<Rightarrow> dict_copy os_environ p | Some a \<Rightarrow> (a, p)) of (a, p1) \<Rightarrow>
        (let p2 = emit (Ran cmd cwd) p1 in
         case popen h cmd cwd (dicts p2 a) of
           Spawn_error \<Rightarrow> (Inl OSError, p2)
         | Completed returncode out \<Rightarrow>
             if returncode \<noteq> 0 then (Inl (RuntimeError (''Command failed: '' @ cmd)), p2)
             else (Inr returncode, p2)))"

text \<open>\<^verbatim>\<open>os.makedirs(path, exist_ok=True)\<close>, outside any \<^verbatim>\<open>try\<close> of its caller.\<close>

definition makedirs :: "host \<Rightarrow> string \<Rightarrow> unit step" where
  "makedirs h path p =
     (if makedirs_raises h path then (Inl OSError, p) else (Inr (), emit (Made_dirs path) p))"

section \<open>Collecting the binaries\<close>

text \<open>
  The loop of \<^verbatim>\<open>copy_binaries\<close>. A binary that exists is copied and made executable
  (mode \<^verbatim>\<open>0o755\<close>, which is 493) inside a \<^verbatim>\<open>try\<close>; whatever is raised there is logged and the loop
  goes on. A binary that does not exist is logged.
\<close>

fun copy_loop :: "host \<Rightarrow> string \<Rightarrow> string list \<Rightarrow> string list \<Rightarrow> process \<Rightarrow> string list \<times> process" where
  "copy_loop h dest_dir [] copied p = (copied, p)"
| "copy_loop h dest_dir (binary # binary_files) copied p =
     (if path_exists h binary
      then (let dest = path_join dest_dir (basename binary) in
            if copy2_raises h binary dest
            then copy_loop h dest_dir binary_files copied
                   (emit (Logged (Failed_to_copy (basename binary))) p)
            else if chmod_raises h dest
            then copy_loop h dest_dir binary_files copied
                   (emit (Logged (Failed_to_copy (basename binary))) (emit (Copy2 binary dest) p))
            else copy_loop h dest_dir binary_files (copied @ [dest])
                   (emit (Chmod dest 493) (emit (Copy2 binary dest) p)))
      else copy_loop h dest_dir binary_files copied (emit (Logged (Binary_not_found binary)) p))"

definition copy_binaries :: "host \<Rightarrow> string \<Rightarrow> string \<Rightarrow> string list \<Rightarrow> string list step" where
  "copy_binaries h src_dir dest_dir binary_files =
     and_then (makedirs h dest_dir) (\<lambda>_ p.
       case copy_loop h dest_dir binary_files [] p of (copied, p1) \<Rightarrow>
         (Inr copied, if copied = [] then emit (Logged No_binaries_copied) p1 else p1))"

section \<open>The two build pipelines\<close>

definition BITCOIN_REPO :: string where
  "BITCOIN_REPO = ''https://github.com/bitcoin/bitcoin.git''"

definition ELECTRS_REPO :: string where
  "ELECTRS_REPO = ''https://github.com/romanz/electrs.git''"

text \<open>Clone or update the source; the commands run with the environment given.\<close>

definition acquire_source :: "host \<Rightarrow> string \<Rightarrow> string \<Rightarrow> string \<Rightarrow> string \<Rightarrow> addr option \<Rightarrow> unit step" where
  "acquire_source h repo version build_dir src_dir env =
     (if \<not> path_exists h src_dir
      then and_then
             (run_command h (''git clone --depth 1 --branch '' @ version @ '' '' @ repo @ '' '' @ src_dir)
                (Some build_dir) env)
             (\<lambda>_. done_with ())
      else and_then (run_command h (''git fetch --depth 1 origin tag '' @ version) (Some src_dir) env)
             (\<lambda>_. and_then (run_command h (''git checkout '' @ version) (Some src_dir) env)
             (\<lambda>_. done_with ())))"

text \<open>
  The gate after the checkout:
  \<^verbatim>\<open>if not verify_source_integrity(...): raise RuntimeError("Source verification failed")\<close>.
\<close>

definition integrity_gate :: "host \<Rightarrow> string \<Rightarrow> string \<Rightarrow> string \<Rightarrow> unit step" where
  "integrity_gate h src_dir project_name version p =
     (case verify_source_integrity h src_dir project_name version p of
        (ok, p1) \<Rightarrow> if \<not> ok then (Inl (RuntimeError ''Source verification failed''), p1)
                    else (Inr (), p1))"

definition compile_bitcoin_source :: "host \<Rightarrow> string \<Rightarrow> string \<Rightarrow> nat \<Rightarrow> bool \<Rightarrow> string step" where
  "compile_bitcoin_source h version build_dir cores use_aggressive_opts =
     (let version_clean = lstrip_v version;
          src_dir = path_join build_dir (''bitcoin-'' @ version_clean) in
      and_then (makedirs h build_dir) (\<lambda>_.
      and_then (acquire_source h BITCOIN_REPO version build_dir src_dir None) (\<lambda>_.
      and_then (integrity_gate h src_dir ''Bitcoin Core'' version) (\<lambda>_.
      and_then (\<lambda>p. case setup_build_environment h use_aggressive_opts p of
                       (env, p1) \<Rightarrow> (Inr env, p1)) (\<lambda>env.
      and_then
        (if use_cmake version
         then and_then (run_command h ''cmake -B build -DENABLE_WALLET=OFF -DENABLE_IPC=OFF''
                          (Some src_dir) (Some env)) (\<lambda>_.
              and_then (run_command h (''cmake --build build -j'' @ py_str cores)
                          (Some src_dir) (Some env)) (\<lambda>_.
              (let binary_dir = path_join (path_join src_dir ''build'') ''bin'' in
               done_with [path_join binary_dir ''bitcoind'',
                          path_join binary_dir ''bitcoin-cli'',
                          path_join binary_dir ''bitcoin-tx'',
                          path_join binary_dir ''bitcoin-wallet'',
                          path_join binary_dir ''bitcoin-util''])))
         else and_then (run_command h ''./autogen.sh'' (Some src_dir) (Some env)) (\<lambda>_.
              and_then (run_command h (''./configure '' @ join '' '' [''--disable-wallet'', ''--disable-gui''])
                          (Some src_dir) (Some env)) (\<lambda>_.
              and_then (run_command h (''make -j'' @ py_str cores) (Some src_dir) (Some env)) (\<lambda>_.
              (let binary_dir = path_join src_dir ''bin'' in
               done_with [path_join binary_dir ''bitcoind'',
                          path_join binary_dir ''bitcoin-cli'',
                          path_join binary_dir ''bitcoin-tx'',
                          path_join binary_dir ''bitcoin-wallet''])))))
        (\<lambda>binaries.
      (let output_dir = path_join (path_join build_dir ''binaries'') (''bitcoin-'' @ version_clean) in
       and_then (copy_binaries h src_dir output_dir binaries) (\<lambda>copied.
       done_with output_dir))))))))"

text \<open>
  The check of the Rust toolchain at the head of \<^verbatim>\<open>compile_electrs_source\<close>: both
  programs are run with \<^verbatim>\<open>--version\<close> in the composed environment. A return code of
  \<^verbatim>\<open>cargo\<close> other than 0 raises; a return code of \<^verbatim>\<open>rustc\<close> other than 0 is logged as
  a warning.
\<close>

definition check_rust :: "host \<Rightarrow> addr \<Rightarrow> unit step" where
  "check_rust h env p =
     (case cargo_version h (dicts p env) of
        Spawn_error \<Rightarrow> (Inl OSError, p)
      | Completed returncode out \<Rightarrow>
          if returncode \<noteq> 0
          then (Inl (RuntimeError ''Cargo not found - cannot compile Electrs''),
                emit (Showed_error ''Rust Not Found'') p)
          else (case rustc_version h (dicts p env) of
                  Spawn_error \<Rightarrow> (Inl OSError, p)
                | Completed returncode' out' \<Rightarrow>
                    if returncode' = 0 then (Inr (), p)
                    else (Inr (), emit (Logged Rustc_check_failed) p)))"

definition compile_electrs_source :: "host \<Rightarrow> string \<Rightarrow> string \<Rightarrow> nat \<Rightarrow> bool \<Rightarrow> string step" where
  "compile_electrs_source h version build_dir cores use_aggressive_opts =
     and_then (\<lambda>p. case setup_build_environment h use_aggressive_opts p of
                      (env, p1) \<Rightarrow>
                        (Inr env, set_flags env (get_rust_optimization_flags use_aggressive_opts) p1))
       (\<lambda>env.
     and_then (check_rust h env) (\<lambda>_.
     (let version_clean = lstrip_v version;
          src_dir = path_join build_dir (''electrs-'' @ version_clean) in
      and_then (makedirs h build_dir) (\<lambda>_.
      and_then (acquire_source h ELECTRS_REPO version build_dir src_dir (Some env)) (\<lambda>_.
      and_then (integrity_gate h src_dir ''Electrs'' version) (\<lambda>_.
      and_then (run_command h (''cargo build --release --jobs '' @ py_str cores)
                  (Some src_dir) (Some env)) (\<lambda>_.
      (let binary = path_join (path_join (path_join src_dir ''target'') ''release'') ''electrs'' in
       if \<not> path_exists h binary
       then raise (RuntimeError (''Electrs binary not found at expected location: '' @ binary))
       else (let output_dir = path_join (path_join build_dir ''binaries'') (''electrs-'' @ version_clean) in
             and_then (copy_binaries h src_dir output_dir [binary]) (\<lambda>copied.
             done_with output_dir))))))))))"

text \<open>The commands a state has run through \<^verbatim>\<open>run_command\<close>.\<close>

definition commands_run :: "process \<Rightarrow> string list" where
  "commands_run p = concat (map (\<lambda>ev. case ev of Ran cmd cwd \<Rightarrow> [cmd] | _ \<Rightarrow> []) (trace p))"

text \<open>
  From \<open>p\<close> to \<open>p'\<close> the program has run \<^verbatim>\<open>git\<close> commands at most, and \<^verbatim>\<open>os.environ\<close>
  is as it was.
\<close>

definition git_only :: "process \<Rightarrow> process \<Rightarrow> bool" where
  "git_only p p' \<longleftrightarrow>
     dicts p' os_environ = dicts p os_environ \<and> next_addr p \<le> next_addr p' \<and>
     (\<exists>cmds. commands_run p' = commands_run p @ cmds \<and> list_all (\<lambda>c. take 4 c = ''git '') cmds)"

section \<open>A host and a process to evaluate on\<close>

text \<open>
  A freshly started process: \<^verbatim>\<open>os.environ\<close> is the only dictionary, and it is empty
  before the module sets \<^verbatim>\<open>PATH\<close>. On the plain host Homebrew is at \<^verbatim>\<open>/opt/homebrew\<close>,
  the optional tool directories are absent, the source is not checked out yet, every file
  operation and every program succeeds, and the user answers no.
\<close>

definition fresh_process :: process where
  "fresh_process = \<lparr>dicts = (\<lambda>_. Map.empty), next_addr = 1, trace = []\<rparr>"

definition plain_host :: host where
  "plain_host =
     \<lparr>ARCH = Apple_silicon, BREW_PREFIX = Some ''/opt/homebrew'', home_dir = ''/Users/u'',
      isdir = (\<lambda>_. False), path_exists = (\<lambda>_. False), makedirs_raises = (\<lambda>_. False),
      copy2_raises = (\<lambda>_ _. False), chmod_raises = (\<lambda>_. False),
      cargo_version = (\<lambda>_. Completed 0 ''cargo 1.80.0''),
      rustc_version = (\<lambda>_. Completed 0 ''rustc 1.80.0''),
      git_rev_parse_head = (\<lambda>_ _. Completed 0 ''4a3f1c''),
      git_rev_list = (\<lambda>_ _ _. Completed 0 ''4a3f1c''),
      popen = (\<lambda>_ _ _. Completed 0 []),
      askyesno = (\<lambda>_. False)\<rparr>"

section \<open>Properties of the version logic\<close>

lemma is_digit_not_v: "is_digit c \<Longrightarrow> c \<noteq> CHR ''v''"
  by (auto simp: is_digit_def)

lemma is_digit_not_dot: "\<not> is_digit CHR ''.''"
  by (simp add: is_digit_def)

lemma lstrip_v_replicate:
  assumes "s = [] \<or> hd s \<noteq> CHR ''v''"
  shows "lstrip_v (replicate k CHR ''v'' @ s) = s"
  using assms unfolding lstrip_v_def
  by (induction k) (auto simp: dropWhile_eq_self_iff)

lemma re_match_version_digits:
  assumes "ds1 \<noteq> []" "\<forall>c\<in>set ds1. is_digit c" "ds2 \<noteq> []" "\<forall>c\<in>set ds2. is_digit c"
    and "rest = [] \<or> \<not> is_digit (hd rest)"
  shows "re_match_version (ds1 @ ''.'' @ ds2 @ rest) = Some (ds1, ds2)"
proof -
  have t1: "takeWhile is_digit (ds1 @ CHR ''.'' # ds2 @ rest) = ds1"
    using assms(2) by (simp add: takeWhile_append2 is_digit_not_dot)
  have d1: "dropWhile is_digit (ds1 @ CHR ''.'' # ds2 @ rest) = CHR ''.'' # ds2 @ rest"
    using assms(2) by (simp add: dropWhile_append2 is_digit_not_dot)
  have t2: "takeWhile is_digit (ds2 @ rest) = ds2"
    using assms(4,5) by (cases rest) (simp_all add: takeWhile_append2)
  show ?thesis
    using assms(1,3) by (simp add: re_match_version_def t1 d1 t2)
qed

lemma parse_version_digits:
  assumes "ds1 \<noteq> []" "\<forall>c\<in>set ds1. is_digit c" "ds2 \<noteq> []" "\<forall>c\<in>set ds2. is_digit c"
    and "rest = [] \<or> \<not> is_digit (hd rest)"
  shows "parse_version (replicate k CHR ''v'' @ ds1 @ ''.'' @ ds2 @ rest) = (py_int ds1, py_int ds2)"
proof -
  have "hd (ds1 @ ''.'' @ ds2 @ rest) \<noteq> CHR ''v''"
    using assms(1,2) by (cases ds1) (auto dest: is_digit_not_v)
  then have "lstrip_v (replicate k CHR ''v'' @ ds1 @ ''.'' @ ds2 @ rest) = ds1 @ ''.'' @ ds2 @ rest"
    by (intro lstrip_v_replicate) simp
  then show ?thesis
    using re_match_version_digits [OF assms] by (simp add: parse_version_def)
qed

lemma re_match_version_SomeD:
  assumes "re_match_version s = Some (g1, g2)"
  shows "g1 \<noteq> [] \<and> (\<forall>c\<in>set g1. is_digit c) \<and> g2 \<noteq> [] \<and> (\<forall>c\<in>set g2. is_digit c)
         \<and> (\<exists>rest. s = g1 @ ''.'' @ g2 @ rest)"
proof -
  obtain c r where dr: "dropWhile is_digit s = c # r"
    using assms by (cases "dropWhile is_digit s") (auto simp: re_match_version_def)
  from assms dr have c: "c = CHR ''.''" and g1: "g1 = takeWhile is_digit s" "g1 \<noteq> []"
    and g2: "g2 = takeWhile is_digit r" "g2 \<noteq> []"
    by (auto simp: re_match_version_def Let_def split: if_splits)
  have "s = takeWhile is_digit s @ dropWhile is_digit s" by simp
  also have "\<dots> = g1 @ ''.'' @ g2 @ dropWhile is_digit r"
    using dr c g1 g2 by simp
  finally have "\<exists>rest. s = g1 @ ''.'' @ g2 @ rest" by blast
  moreover have "\<forall>c\<in>set g1. is_digit c" "\<forall>c\<in>set g2. is_digit c"
    using g1 g2 by (auto dest: set_takeWhileD)
  ultimately show ?thesis using g1 g2 by blast
qed

lemma parse_version_no_match:
  assumes "\<not> (\<exists>ds1 ds2 rest. ds1 \<noteq> [] \<and> (\<forall>c\<in>set ds1. is_digit c) \<and> ds2 \<noteq> [] \<and> (\<forall>c\<in>set ds2. is_digit c)
              \<and> dropWhile (\<lambda>c. c = CHR ''v'') tag = ds1 @ ''.'' @ ds2 @ rest)"
  shows "parse_version tag = (0, 0)"
proof (cases "re_match_version (lstrip_v tag)")
  case None
  then show ?thesis by (simp add: parse_version_def)
next
  case (Some p)
  obtain g1 g2 where "p = (g1, g2)" by (cases p)
  with Some re_match_version_SomeD [of "lstrip_v tag" g1 g2] assms
  show ?thesis unfolding lstrip_v_def by blast
qed

lemma py_str_0: "py_str 0 = ''0''"
  by (simp add: py_str.simps digit_char_def)


lemma use_cmake_fst: "use_cmake version = (25 \<le> fst (parse_version version))"
  by (simp add: use_cmake_def split: prod.splits)


text \<open>
  C5. Build-system selection is a function of the parsed major version: a version string
  made of any number of leading \<open>v\<close>, a major and a minor number separated by a dot
  (and anything not a digit after them) selects CMake exactly when the major is at least
  25, and Autotools otherwise; so \<^verbatim>\<open>"25.0"\<close> and \<^verbatim>\<open>"v25.1"\<close> select CMake and
  \<^verbatim>\<open>"24.2"\<close> selects Autotools.
\<close>

theorem use_cmake_major_ge_25:
  assumes "ds1 \<noteq> []" "\<forall>c\<in>set ds1. is_digit c" "ds2 \<noteq> []" "\<forall>c\<in>set ds2. is_digit c"
    and "rest = [] \<or> \<not> is_digit (hd rest)"
  shows "use_cmake (replicate k CHR ''v'' @ ds1 @ ''.'' @ ds2 @ rest) = (25 \<le> py_int ds1)"
  using parse_version_digits [OF assms, of k] by (simp add: use_cmake_def)

theorem use_cmake_major_ge_25_witness:
  "use_cmake ''25.0'' \<and> use_cmake ''v25.1'' \<and> \<not> use_cmake ''24.2''"
  using use_cmake_major_ge_25 [of "''25''" "''0''" "[]" 0]
    use_cmake_major_ge_25 [of "''25''" "''1''" "[]" 1]
    use_cmake_major_ge_25 [of "''24''" "''2''" "[]" 0]
  by (simp add: is_digit_def py_int_def digit_val_def)


section \<open>Properties of the version catalog\<close>

lemma py_in_iff: "py_in sub s \<longleftrightarrow> (\<exists>pre post. s = pre @ sub @ post)"
proof (induction s)
  case Nil
  then show ?case by auto
next
  case (Cons c s)
  show ?case
  proof
    assume "py_in sub (c # s)"
    then consider "take (length sub) (c # s) = sub" | "py_in sub s" by auto
    then show "\<exists>pre post. c # s = pre @ sub @ post"
    proof cases
      case 1
      then have "c # s = [] @ sub @ drop (length sub) (c # s)"
        by (metis append_Nil append_take_drop_id)
      then show ?thesis by blast
    next
      case 2
      with Cons.IH obtain pre post where "s = pre @ sub @ post" by blast
      then have "c # s = (c # pre) @ sub @ post" by simp
      then show ?thesis by blast
    qed
  next
    assume "\<exists>pre post. c # s = pre @ sub @ post"
    then obtain pre post where eq: "c # s = pre @ sub @ post" by blast
    show "py_in sub (c # s)"
    proof (cases pre)
      case Nil
      with eq have "take (length sub) (c # s) = sub" by simp
      then show ?thesis by simp
    next
      case (Cons a pre')
      with eq have "s = pre' @ sub @ post" by simp
      with Cons.IH have "py_in sub s" by blast
      then show ?thesis by simp
    qed
  qed
qed

lemma lower_rc:
  assumes "c1 \<in> {CHR ''r'', CHR ''R''}" "c2 \<in> {CHR ''c'', CHR ''C''}"
  shows "py_in ''rc'' (lower (pre @ [c1, c2] @ post))"
proof -
  have "lower_char CHR ''r'' = CHR ''r''" "lower_char CHR ''R'' = CHR ''r''"
    "lower_char CHR ''c'' = CHR ''c''" "lower_char CHR ''C'' = CHR ''c''"
    by (simp_all add: lower_char_def)
  with assms have "lower_char c1 = CHR ''r''" "lower_char c2 = CHR ''c''"
    by blast+
  then have "lower (pre @ [c1, c2] @ post) = lower pre @ ''rc'' @ lower post"
    by (simp add: lower_def)
  then show ?thesis unfolding py_in_iff by blast
qed

lemma collect_non_rc_set:
  "collect_non_rc limit rels acc = Inr out \<Longrightarrow>
   set out \<subseteq> set acc \<union> {t. \<not> py_in ''rc'' (lower t)}"
proof (induction rels arbitrary: acc)
  case Nil
  then show ?case by auto
next
  case (Cons rel rels)
  show ?case
  proof (cases "tag_name rel")
    case None
    with Cons.prems show ?thesis by simp
  next
    case (Some tag)
    show ?thesis
    proof (cases "py_in ''rc'' (lower tag)")
      case True
      with Some Cons.prems have "collect_non_rc limit rels acc = Inr out" by simp
      from Cons.IH [OF this] show ?thesis .
    next
      case False
      show ?thesis
      proof (cases "length (acc @ [tag]) = limit")
        case True
        with Some False Cons.prems have "out = acc @ [tag]" by (simp add: Let_def)
        with False show ?thesis by auto
      next
        case ne: False
        with Some False Cons.prems have "collect_non_rc limit rels (acc @ [tag]) = Inr out"
          by (simp add: Let_def)
        from Cons.IH [OF this] False show ?thesis by auto
      qed
    qed
  qed
qed

lemma collect_skip:
  "py_in ''rc'' (lower t) \<Longrightarrow>
   collect_non_rc limit (\<lparr>tag_name = Some t\<rparr> # rels) acc = collect_non_rc limit rels acc"
  by simp

lemma collect_break:
  "\<not> py_in ''rc'' (lower t) \<Longrightarrow> Suc (length acc) = limit \<Longrightarrow>
   collect_non_rc limit (\<lparr>tag_name = Some t\<rparr> # rels) acc = Inr (acc @ [t])"
  by (simp add: Let_def)

lemma collect_keep:
  "\<not> py_in ''rc'' (lower t) \<Longrightarrow> Suc (length acc) \<noteq> limit \<Longrightarrow>
   collect_non_rc limit (\<lparr>tag_name = Some t\<rparr> # rels) acc = collect_non_rc limit rels (acc @ [t])"
  by (simp add: Let_def)

lemma collect_non_rc_releases:
  "length acc < limit \<Longrightarrow>
   collect_non_rc limit (map (\<lambda>t. \<lparr>tag_name = Some t\<rparr>) tags) acc
     = Inr (take limit (acc @ filter (\<lambda>t. \<not> py_in ''rc'' (lower t)) tags))"
proof (induction tags arbitrary: acc)
  case Nil
  then show ?case by simp
next
  case (Cons t tags)
  let ?rels = "map (\<lambda>t. \<lparr>tag_name = Some t\<rparr>) tags"
  let ?keep = "filter (\<lambda>t. \<not> py_in ''rc'' (lower t)) tags"
  show ?case
  proof (cases "py_in ''rc'' (lower t)")
    case True
    have "collect_non_rc limit (\<lparr>tag_name = Some t\<rparr> # ?rels) acc = collect_non_rc limit ?rels acc"
      by (rule collect_skip [OF True])
    also have "\<dots> = Inr (take limit (acc @ ?keep))"
      by (rule Cons.IH [OF Cons.prems])
    finally show ?thesis using True by simp
  next
    case False
    show ?thesis
    proof (cases "Suc (length acc) = limit")
      case True
      have "collect_non_rc limit (\<lparr>tag_name = Some t\<rparr> # ?rels) acc = Inr (acc @ [t])"
        by (rule collect_break [OF False True])
      moreover have "take limit (acc @ t # ?keep) = acc @ [t]"
        unfolding True [symmetric] by simp
      ultimately show ?thesis using False by simp
    next
      case ne: False
      with Cons.prems have lt: "length (acc @ [t]) < limit" by simp
      have "collect_non_rc limit (\<lparr>tag_name = Some t\<rparr> # ?rels) acc
          = collect_non_rc limit ?rels (acc @ [t])"
        by (rule collect_keep [OF False ne])
      also have "\<dots> = Inr (take limit ((acc @ [t]) @ ?keep))"
        by (rule Cons.IH [OF lt])
      finally show ?thesis using False by simp
    qed
  qed
qed


lemma set_sorted_reverse: "set (sorted_reverse f xs) = set xs"
  by (simp add: sorted_reverse_def)

lemma pick_latest_Cons:
  "pick_latest g (key # keys) acc = Inr out \<Longrightarrow>
   \<exists>tags t ts. map_of g key = Some tags \<and> sorted_reverse parse_version tags = t # ts \<and>
     (if Suc (length acc) = 5 then out = acc @ [t] else pick_latest g keys (acc @ [t]) = Inr out)"
  by (simp add: Let_def split: option.splits list.splits if_splits)

lemma pick_latest_set:
  "pick_latest g keys acc = Inr out \<Longrightarrow>
   set out \<subseteq> set acc \<union> (\<Union>(k, tags)\<in>set g. set tags)"
proof (induction keys arbitrary: acc)
  case Nil
  then show ?case by auto
next
  case (Cons key keys)
  from pick_latest_Cons [OF Cons.prems] obtain tags t ts where
    look: "map_of g key = Some tags" and srt: "sorted_reverse parse_version tags = t # ts"
    and rest: "if Suc (length acc) = 5 then out = acc @ [t] else pick_latest g keys (acc @ [t]) = Inr out"
    by blast
  have "t \<in> set (sorted_reverse parse_version tags)" unfolding srt by simp
  then have "t \<in> set tags" unfolding set_sorted_reverse .
  moreover have "(key, tags) \<in> set g" using look by (rule map_of_SomeD)
  ultimately have tin: "t \<in> (\<Union>(k, tags)\<in>set g. set tags)" by blast
  show ?case
  proof (cases "Suc (length acc) = 5")
    case True
    with rest have "out = acc @ [t]" by simp
    with tin show ?thesis by auto
  next
    case False
    with rest have "pick_latest g keys (acc @ [t]) = Inr out" by simp
    from Cons.IH [OF this] have "set out \<subseteq> set (acc @ [t]) \<union> (\<Union>(k, tags)\<in>set g. set tags)" .
    with tin show ?thesis by auto
  qed
qed

lemma map_of_group_update:
  "map_of (map (\<lambda>(k, tags). if k = key then (k, tags @ [t]) else (k, tags)) g) k'
     = (if k' = key then map_option (\<lambda>tags. tags @ [t]) (map_of g k') else map_of g k')"
  by (induction g) auto

lemma fst_group_update:
  "map fst (map (\<lambda>(k, tags). if k = key then (k, tags @ [t]) else (k, tags)) g) = map fst g"
  by (induction g) auto

lemma keys_group_add: "map fst (group_add g t) =
    (if version_key t \<in> set (map fst g) then map fst g else map fst g @ [version_key t])"
proof (cases "version_key t \<in> fst ` set g")
  case True
  then have "group_add g t = map (\<lambda>(k, tags). if k = version_key t then (k, tags @ [t]) else (k, tags)) g"
    by (simp add: group_add_def)
  then show ?thesis using True by (simp only: fst_group_update set_map if_True)
next
  case False
  then have "group_add g t = g @ [(version_key t, [t])]"
    by (simp add: group_add_def)
  then show ?thesis using False by simp
qed

lemma map_of_group_add:
  "map_of (group_add g t) k =
     (if k = version_key t
      then Some (case map_of g k of None \<Rightarrow> [t] | Some tags \<Rightarrow> tags @ [t])
      else map_of g k)"
proof (cases "version_key t \<in> fst ` set g")
  case True
  then have "map_of g (version_key t) \<noteq> None"
    by (simp add: map_of_eq_None_iff)
  then obtain tags where "map_of g (version_key t) = Some tags" by blast
  moreover have "group_add g t = map (\<lambda>(k, tags). if k = version_key t then (k, tags @ [t]) else (k, tags)) g"
    using True by (simp add: group_add_def)
  ultimately show ?thesis
    by (simp add: map_of_group_update)
next
  case False
  then have "map_of g (version_key t) = None"
    by (simp add: map_of_eq_None_iff)
  moreover have "group_add g t = g @ [(version_key t, [t])]"
    using False by (simp add: group_add_def)
  ultimately show ?thesis
    by (cases "k = version_key t") (simp_all add: map_add_def split: option.splits)
qed

lemma group_versions_snoc: "group_versions (xs @ [x]) = group_add (group_versions xs) x"
  by (simp add: group_versions_def)

lemma keys_group_versions:
  "distinct (map fst (group_versions xs)) \<and> set (map fst (group_versions xs)) = version_key ` set xs"
proof (induction xs rule: rev_induct)
  case Nil
  then show ?case by (simp add: group_versions_def)
next
  case (snoc x xs)
  let ?ks = "map fst (group_versions xs)"
  from snoc have d: "distinct ?ks" and s: "set ?ks = version_key ` set xs" by simp_all
  show ?case
  proof (cases "version_key x \<in> set ?ks")
    case True
    then have "map fst (group_versions (xs @ [x])) = ?ks"
      by (simp only: group_versions_snoc keys_group_add if_True)
    moreover have "version_key ` set (xs @ [x]) = set ?ks"
      using True s by auto
    ultimately show ?thesis using d by simp
  next
    case False
    then have "map fst (group_versions (xs @ [x])) = ?ks @ [version_key x]"
      by (simp only: group_versions_snoc keys_group_add if_False)
    moreover have "version_key ` set (xs @ [x]) = insert (version_key x) (set ?ks)"
      using s by auto
    ultimately show ?thesis using d False by simp
  qed
qed

lemma map_of_group_versions:
  "map_of (group_versions xs) k =
     (if k \<in> version_key ` set xs then Some (filter (\<lambda>t. version_key t = k) xs) else None)"
proof (induction xs rule: rev_induct)
  case Nil
  then show ?case by (simp add: group_versions_def)
next
  case (snoc x xs)
  show ?case
  proof (cases "k = version_key x")
    case True
    show ?thesis
    proof (cases "k \<in> version_key ` set xs")
      case in_xs: True
      with snoc have "map_of (group_versions xs) k = Some (filter (\<lambda>t. version_key t = k) xs)"
        by simp
      then have "map_of (group_versions (xs @ [x])) k = Some (filter (\<lambda>t. version_key t = k) xs @ [x])"
        unfolding group_versions_snoc map_of_group_add using True by simp
      then show ?thesis using True by simp
    next
      case notin: False
      then have e: "filter (\<lambda>t. version_key t = k) xs = []"
        by (auto simp: filter_empty_conv)
      from notin snoc have "map_of (group_versions xs) k = None" by simp
      then have "map_of (group_versions (xs @ [x])) k = Some [x]"
        unfolding group_versions_snoc map_of_group_add using True by simp
      then show ?thesis using True e by simp
    qed
  next
    case False
    then have "map_of (group_versions (xs @ [x])) k = map_of (group_versions xs) k"
      unfolding group_versions_snoc map_of_group_add by simp
    then show ?thesis using snoc False by auto
  qed
qed

lemma group_versions_tags:
  "(\<Union>(k, tags)\<in>set (group_versions xs). set tags) \<subseteq> set xs"
proof
  fix t assume "t \<in> (\<Union>(k, tags)\<in>set (group_versions xs). set tags)"
  then obtain k tags where kt: "(k, tags) \<in> set (group_versions xs)" and t: "t \<in> set tags"
    by auto
  have "distinct (map fst (group_versions xs))" using keys_group_versions by blast
  with kt have "map_of (group_versions xs) k = Some tags" by simp
  then have "tags = filter (\<lambda>t. version_key t = k) xs"
    by (simp add: map_of_group_versions split: if_splits)
  with t show "t \<in> set xs" by simp
qed

text \<open>
  C10. A tag that, once its leading \<open>v\<close>s are stripped, does not start with two
  dot-separated numbers parses to \<open>(0, 0)\<close>; its key is \<^verbatim>\<open>"0.0"\<close>, the grouping loop
  puts it into the group of that key, and it selects the Autotools variant.
\<close>

theorem parse_version_fallback:
  assumes "\<not> (\<exists>ds1 ds2 rest. ds1 \<noteq> [] \<and> (\<forall>c\<in>set ds1. is_digit c) \<and> ds2 \<noteq> []
              \<and> (\<forall>c\<in>set ds2. is_digit c)
              \<and> dropWhile (\<lambda>c. c = CHR ''v'') tag = ds1 @ ''.'' @ ds2 @ rest)"
  shows "parse_version tag = (0, 0) \<and> version_key tag = ''0.0'' \<and> \<not> use_cmake tag
       \<and> (\<forall>all_versions. tag \<in> set all_versions \<longrightarrow>
             (\<exists>tags. map_of (group_versions all_versions) ''0.0'' = Some tags \<and> tag \<in> set tags))"
proof -
  have basic: "parse_version tag = (0, 0)" "version_key tag = ''0.0''" "\<not> use_cmake tag"
    using parse_version_no_match [OF assms]
    by (simp_all add: version_key_def use_cmake_def py_str_0)
  have "\<exists>tags. map_of (group_versions all_versions) ''0.0'' = Some tags \<and> tag \<in> set tags"
    if "tag \<in> set all_versions" for all_versions
  proof -
    from that basic(2) have "''0.0'' \<in> version_key ` set all_versions" by (metis imageI)
    then have "map_of (group_versions all_versions) ''0.0''
        = Some (filter (\<lambda>t. version_key t = ''0.0'') all_versions)"
      by (simp only: map_of_group_versions if_True)
    moreover have "tag \<in> set (filter (\<lambda>t. version_key t = ''0.0'') all_versions)"
      using that basic(2) by simp
    ultimately show ?thesis by (intro exI conjI)
  qed
  with basic show ?thesis by (intro conjI allI impI)
qed

theorem parse_version_fallback_witness:
  "parse_version ''v25'' = (0, 0) \<and> version_key ''v25'' = ''0.0'' \<and> \<not> use_cmake ''v25''"
proof -
  have "\<not> (\<exists>ds1 ds2 rest. ds1 \<noteq> [] \<and> (\<forall>c\<in>set ds1. is_digit c) \<and> ds2 \<noteq> []
              \<and> (\<forall>c\<in>set ds2. is_digit c)
              \<and> dropWhile (\<lambda>c. c = CHR ''v'') ''v25'' = ds1 @ ''.'' @ ds2 @ rest)"
  proof
    assume "\<exists>ds1 ds2 rest. ds1 \<noteq> [] \<and> (\<forall>c\<in>set ds1. is_digit c) \<and> ds2 \<noteq> []
              \<and> (\<forall>c\<in>set ds2. is_digit c)
              \<and> dropWhile (\<lambda>c. c = CHR ''v'') ''v25'' = ds1 @ ''.'' @ ds2 @ rest"
    then obtain ds1 ds2 rest where "''25'' = ds1 @ ''.'' @ ds2 @ rest" by auto
    then have "CHR ''.'' \<in> set ''25''" by (metis append_Cons in_set_conv_decomp)
    then show False by simp
  qed
  from parse_version_fallback [OF this] show ?thesis by (elim conjE) (intro conjI)
qed

text \<open>
  C8. A tag that contains \<open>rc\<close> in any letter case at any position is in neither listing,
  and is not in the list of tags that the node-daemon listing groups.
\<close>

theorem rc_tags_excluded:
  assumes "c1 \<in> {CHR ''r'', CHR ''R''}" "c2 \<in> {CHR ''c'', CHR ''C''}"
  shows "pre @ [c1, c2] @ post \<notin> set (get_bitcoin_versions r)
       \<and> pre @ [c1, c2] @ post \<notin> set (get_electrs_versions r)
       \<and> (\<forall>limit rels out. collect_non_rc limit rels [] = Inr out
              \<longrightarrow> pre @ [c1, c2] @ post \<notin> set out)"
proof -
  let ?tag = "pre @ [c1, c2] @ post"
  have rc: "py_in ''rc'' (lower ?tag)" by (rule lower_rc [OF assms])
  have coll: "?tag \<notin> set out" if "collect_non_rc limit rels [] = Inr out" for limit rels out
    using collect_non_rc_set [OF that] rc by auto
  have "?tag \<notin> set (get_electrs_versions r)"
  proof (cases "get_electrs_versions_try r")
    case (Inl e)
    then show ?thesis by (simp add: get_electrs_versions_def)
  next
    case (Inr versions)
    then obtain rels where "collect_non_rc 3 rels [] = Inr versions"
      by (cases r) (simp_all add: get_electrs_versions_try_def)
    from coll [OF this] Inr show ?thesis by (simp add: get_electrs_versions_def)
  qed
  moreover have "?tag \<notin> set (get_bitcoin_versions r)"
  proof (cases "get_bitcoin_versions_try r")
    case (Inl e)
    then show ?thesis by (simp add: get_bitcoin_versions_def)
  next
    case (Inr filtered_versions)
    then obtain rels all_versions where all: "collect_non_rc 20 rels [] = Inr all_versions"
      and pick: "pick_latest (group_versions all_versions)
        (sorted_reverse key_tuple (map fst (group_versions all_versions))) [] = Inr filtered_versions"
      by (cases r; cases "collect_non_rc 20 (projr r) []")
         (simp_all add: get_bitcoin_versions_try_def Let_def)
    from pick_latest_set [OF pick] group_versions_tags [of all_versions]
    have "set filtered_versions \<subseteq> set all_versions" by auto
    with coll [OF all] Inr show ?thesis by (auto simp: get_bitcoin_versions_def)
  qed
  ultimately show ?thesis using coll by blast
qed

theorem rc_tags_excluded_witness:
  "''v30.0rc1'' \<notin> set (get_bitcoin_versions (releases [''v30.0rc1'', ''v29.1'']))
   \<and> ''v30.0rc1'' \<notin> set (get_electrs_versions (releases [''v30.0rc1'', ''v29.1'']))"
  using rc_tags_excluded [of "CHR ''r''" "CHR ''c''" "''v30.0''" "''1''"
      "releases [''v30.0rc1'', ''v29.1'']"]
  by simp

text \<open>
  C9. When the fetch fails (the request, the HTTP status or the JSON decoding raises), and
  when anything else raises inside the \<^verbatim>\<open>try\<close> block, both listings return the empty
  list; the functions return a list on every response.
\<close>

theorem catalog_fail_soft:
  "get_bitcoin_versions (Inl e) = [] \<and> get_electrs_versions (Inl e) = []
   \<and> (get_bitcoin_versions_try r = Inl e' \<longrightarrow> get_bitcoin_versions r = [])
   \<and> (get_electrs_versions_try r = Inl e' \<longrightarrow> get_electrs_versions r = [])"
  by (simp add: get_bitcoin_versions_def get_bitcoin_versions_try_def
      get_electrs_versions_def get_electrs_versions_try_def)

theorem catalog_fail_soft_witness:
  "get_bitcoin_versions (Inl RequestException) = []
   \<and> get_electrs_versions (Inl RequestException) = []
   \<and> get_bitcoin_versions_try (Inr [\<lparr>tag_name = Some ''v29.1''\<rparr>, \<lparr>tag_name = None\<rparr>]) = Inl KeyError
   \<and> get_bitcoin_versions (Inr [\<lparr>tag_name = Some ''v29.1''\<rparr>, \<lparr>tag_name = None\<rparr>]) = []
   \<and> get_electrs_versions_try (Inr [\<lparr>tag_name = Some ''v29.1''\<rparr>, \<lparr>tag_name = None\<rparr>]) = Inl KeyError
   \<and> get_electrs_versions (Inr [\<lparr>tag_name = Some ''v29.1''\<rparr>, \<lparr>tag_name = None\<rparr>]) = []"
proof -
  let ?r = "Inr [\<lparr>tag_name = Some ''v29.1''\<rparr>, \<lparr>tag_name = None\<rparr>] :: response"
  have b: "get_bitcoin_versions_try ?r = Inl KeyError"
    by (simp add: get_bitcoin_versions_try_def lower_def lower_char_def)
  have e: "get_electrs_versions_try ?r = Inl KeyError"
    by (simp add: get_electrs_versions_try_def lower_def lower_char_def)
  from catalog_fail_soft [of RequestException ?r KeyError] b e show ?thesis by simp
qed

section \<open>The node-daemon listing, group by group\<close>

lemma digit_char_props:
  assumes "d < 10"
  shows "is_digit (digit_char d) \<and> digit_val (digit_char d) = d"
proof -
  from assms have "d \<in> {0, 1, 2, 3, 4, 5, 6, 7, 8, 9}" by auto
  then show ?thesis
    by (elim insertE emptyE) (simp_all add: digit_char_def is_digit_def digit_val_def)
qed

lemma py_int_snoc: "py_int (s @ [c]) = 10 * py_int s + digit_val c"
  by (simp add: py_int_def)

lemma py_str_props: "py_str n \<noteq> [] \<and> (\<forall>c\<in>set (py_str n). is_digit c) \<and> py_int (py_str n) = n"
proof (induction n rule: py_str.induct)
  case (1 n)
  show ?case
  proof (cases "n < 10")
    case True
    then have "py_str n = [digit_char n]" by (simp add: py_str.simps)
    with digit_char_props [OF True] show ?thesis by (simp add: py_int_def)
  next
    case False
    then have eq: "py_str n = py_str (n div 10) @ [digit_char (n mod 10)]"
      by (subst py_str.simps) simp
    have d: "is_digit (digit_char (n mod 10))" "digit_val (digit_char (n mod 10)) = n mod 10"
      using digit_char_props [of "n mod 10"] by simp_all
    from "1.IH" [OF False] have ih: "\<forall>c\<in>set (py_str (n div 10)). is_digit c"
      "py_int (py_str (n div 10)) = n div 10" by simp_all
    show ?thesis unfolding eq using d ih by (simp add: py_int_snoc)
  qed
qed

lemma split_on_no_sep: "d \<notin> set s \<Longrightarrow> split_on d s = [s]"
  by (induction s) auto

lemma split_on_append: "d \<notin> set a \<Longrightarrow> split_on d (a @ d # b) = a # split_on d b"
proof (induction a)
  case Nil
  show ?case by simp
next
  case (Cons c a)
  from Cons.prems have cd: "c \<noteq> d" by (metis list.set_intros(1))
  from Cons.prems have da: "d \<notin> set a" by simp
  have ih: "split_on d (a @ d # b) = a # split_on d b" by (rule Cons.IH [OF da])
  have "split_on d ((c # a) @ d # b) = (case split_on d (a @ d # b) of [] \<Rightarrow> [[c]] | w # ws \<Rightarrow> (c # w) # ws)"
    using cd by simp
  also have "\<dots> = (c # a) # split_on d b" unfolding ih by simp
  finally show ?case .
qed


lemma py_str_no_dot: "CHR ''.'' \<notin> set (py_str n)"
proof
  assume "CHR ''.'' \<in> set (py_str n)"
  with py_str_props [of n] have "is_digit CHR ''.''" by blast
  then show False by (simp add: is_digit_def)
qed

lemma key_tuple_version_key:
  "key_tuple (version_key t) = [fst (parse_version t), snd (parse_version t)]"
proof -
  obtain major minor where pv: "parse_version t = (major, minor)" by (cases "parse_version t")
  have vk: "version_key t = py_str major @ CHR ''.'' # py_str minor"
    by (simp add: version_key_def pv)
  have "split_on CHR ''.'' (py_str major @ CHR ''.'' # py_str minor)
      = py_str major # split_on CHR ''.'' (py_str minor)"
    by (rule split_on_append [OF py_str_no_dot])
  also have "split_on CHR ''.'' (py_str minor) = [py_str minor]"
    by (rule split_on_no_sep [OF py_str_no_dot])
  finally have "key_tuple (version_key t) = [py_int (py_str major), py_int (py_str minor)]"
    unfolding vk key_tuple_def by simp
  also have "py_int (py_str major) = major" using py_str_props [of major] by blast
  also have "py_int (py_str minor) = minor" using py_str_props [of minor] by blast
  finally show ?thesis by (simp add: pv)
qed

lemma version_key_eq_iff: "version_key s = version_key t \<longleftrightarrow> parse_version s = parse_version t"
proof
  assume "version_key s = version_key t"
  then have "key_tuple (version_key s) = key_tuple (version_key t)" by simp
  then show "parse_version s = parse_version t"
    unfolding key_tuple_version_key by (simp add: prod_eq_iff)
next
  assume "parse_version s = parse_version t"
  then show "version_key s = version_key t" by (simp add: version_key_def)
qed

lemma sorted_reverse_same_key:
  assumes "\<forall>x\<in>set xs. f x = k"
  shows "sorted_reverse f xs = xs"
proof -
  have "map f (rev xs) = replicate (length xs) k"
    using assms by (induction xs) (simp_all add: replicate_append_same)
  then have "sorted (map f (rev xs))" by (simp add: sorted_replicate)
  then have "sort_key f (rev xs) = rev xs" by (rule sort_key_id_if_sorted)
  then show ?thesis by (simp add: sorted_reverse_def)
qed


lemma group_filter_nonempty:
  assumes "k \<in> version_key ` set xs"
  shows "filter (\<lambda>t. version_key t = k) xs \<noteq> []"
  using assms by (auto simp: filter_empty_conv)

lemma hd_group:
  assumes "k \<in> version_key ` set xs"
  shows "hd (filter (\<lambda>t. version_key t = k) xs) \<in> set xs
       \<and> version_key (hd (filter (\<lambda>t. version_key t = k) xs)) = k"
proof -
  let ?g = "filter (\<lambda>t. version_key t = k) xs"
  have "hd ?g \<in> set ?g" using group_filter_nonempty [OF assms] by (rule hd_in_set)
  then show ?thesis by simp
qed

lemma pick_latest_step:
  assumes "map_of g key = Some (t # ts)" "sorted_reverse parse_version (t # ts) = t # ts"
  shows "pick_latest g (key # keys) acc =
     (if Suc (length acc) = 5 then Inr (acc @ [t]) else pick_latest g keys (acc @ [t]))"
  using assms by (simp add: Let_def)

lemma pick_latest_closed:
  assumes "\<forall>k\<in>set keys. k \<in> version_key ` set xs" "length acc < 5"
  shows "pick_latest (group_versions xs) keys acc
       = Inr (take 5 (acc @ map (\<lambda>k. hd (filter (\<lambda>t. version_key t = k) xs)) keys))"
  using assms
proof (induction keys arbitrary: acc)
  case Nil
  then show ?case by simp
next
  case (Cons key keys)
  let ?sel = "\<lambda>k. hd (filter (\<lambda>t. version_key t = k) xs)"
  let ?g = "filter (\<lambda>t. version_key t = key) xs"
  from Cons.prems have kin: "key \<in> version_key ` set xs" by simp
  from group_filter_nonempty [OF kin] obtain t ts where g: "?g = t # ts"
    by (cases ?g) auto
  have look: "map_of (group_versions xs) key = Some (t # ts)"
    using kin g by (simp add: map_of_group_versions)
  have "\<forall>x\<in>set (t # ts). parse_version x = parse_version t"
  proof
    fix x assume "x \<in> set (t # ts)"
    then have "x \<in> set ?g" and "t \<in> set ?g" unfolding g by simp_all
    then have "version_key x = version_key t" by simp
    then show "parse_version x = parse_version t" by (simp add: version_key_eq_iff)
  qed
  then have srt: "sorted_reverse parse_version (t # ts) = t # ts"
    by (rule sorted_reverse_same_key)
  have selk: "?sel key = t" unfolding g by simp
  note step = pick_latest_step [OF look srt, of keys acc]
  show ?case
  proof (cases "Suc (length acc) = 5")
    case True
    then have "take 5 (acc @ map ?sel (key # keys)) = acc @ [t]"
      using selk by simp
    with step True show ?thesis by simp
  next
    case False
    with Cons.prems have lt: "length (acc @ [t]) < 5" by simp
    from Cons.prems have ks: "\<forall>k\<in>set keys. k \<in> version_key ` set xs" by simp
    have "pick_latest (group_versions xs) (key # keys) acc
        = pick_latest (group_versions xs) keys (acc @ [t])"
      using step False by simp
    also have "\<dots> = Inr (take 5 ((acc @ [t]) @ map ?sel keys))"
      by (rule Cons.IH [OF ks lt])
    finally show ?thesis using selk by simp
  qed
qed

lemma pair_list_le: "[a, b] \<le> [c, d] \<longleftrightarrow> (a, b) \<le> ((c, d) :: nat \<times> nat)"
  by auto

lemma get_bitcoin_versions_try_Inr:
  assumes "collect_non_rc 20 rels [] = Inr all_versions"
  shows "get_bitcoin_versions_try (Inr rels) =
     pick_latest (group_versions all_versions)
       (sorted_reverse key_tuple (map fst (group_versions all_versions))) []"
  unfolding get_bitcoin_versions_try_def by (simp only: sum.case assms Let_def)

lemma collect_releases_20:
  "collect_non_rc 20 (map (\<lambda>t. \<lparr>tag_name = Some t\<rparr>) tags) [] = Inr (take 20 (filter (\<lambda>t. \<not> py_in ''rc'' (lower t)) tags))"
proof -
  have "length ([] :: string list) < 20" by simp
  from collect_non_rc_releases [OF this, of tags] show ?thesis by (simp only: append_Nil)
qed

lemma sorted_keys_in_groups: 
  "\<forall>k\<in>set (sorted_reverse key_tuple (map fst (group_versions xs))). k \<in> version_key ` set xs"
  using keys_group_versions [of xs] by (simp only: set_sorted_reverse) blast

lemma pick_latest_group_versions: "pick_latest (group_versions xs) (sorted_reverse key_tuple (map fst (group_versions xs))) []
      = Inr (take 5 (map (\<lambda>k. hd (filter (\<lambda>t. version_key t = k) xs)) (sorted_reverse key_tuple (map fst (group_versions xs)))))"
proof -
  have "length ([] :: string list) < 5" by simp
  from pick_latest_closed [OF sorted_keys_in_groups this, of xs] show ?thesis by (simp only: append_Nil)
qed

lemma get_bitcoin_versions_first_seen:
  "get_bitcoin_versions (releases tags) =
     (let all_versions = take 20 (filter (\<lambda>t. \<not> py_in ''rc'' (lower t)) tags) in
      take 5 (map (\<lambda>k. hd (filter (\<lambda>t. version_key t = k) all_versions))
                (sorted_reverse key_tuple (map fst (group_versions all_versions)))))"
  unfolding get_bitcoin_versions_def releases_def get_bitcoin_versions_try_Inr [OF collect_releases_20] pick_latest_group_versions Let_def
  by (simp only: sum.case)

lemma descending_keys:
  fixes xs :: "string list"
  defines "K \<equiv> sorted_reverse key_tuple (map fst (group_versions xs))"
  shows "map (\<lambda>k. parse_version (hd (filter (\<lambda>t. version_key t = k) xs))) K
       = rev (sort (remdups (map parse_version xs)))"
proof -
  let ?sel = "\<lambda>k. hd (filter (\<lambda>t. version_key t = k) xs)"
  let ?p = "\<lambda>k. parse_version (?sel k)"
  let ?keys = "map fst (group_versions xs)"
  let ?L = "sort_key key_tuple (rev ?keys)"
  have dk: "distinct ?keys" and sk: "set ?keys = version_key ` set xs"
    using keys_group_versions [of xs] by simp_all
  have setL: "set ?L = version_key ` set xs" using sk by simp
  have distL: "distinct ?L" using dk by simp
  have sel: "?sel k \<in> set xs \<and> version_key (?sel k) = k" if "k \<in> set ?L" for k
    using hd_group [of k xs] that setL by simp
  have kt: "key_tuple k = [fst (?p k), snd (?p k)]" if "k \<in> set ?L" for k
    using key_tuple_version_key [of "?sel k"] sel [OF that] by simp
  have "sorted (map key_tuple ?L)" by (rule sorted_sort_key)
  then have "sorted_wrt (\<lambda>a b. key_tuple a \<le> key_tuple b) ?L"
    by (simp add: sorted_wrt_map)
  then have "sorted_wrt (\<lambda>a b. ?p a \<le> ?p b) ?L"
  proof (rule sorted_wrt_mono_rel [rotated])
    fix a b assume a: "a \<in> set ?L" and b: "b \<in> set ?L" and le: "key_tuple a \<le> key_tuple b"
    from le have "[fst (?p a), snd (?p a)] \<le> [fst (?p b), snd (?p b)]"
      unfolding kt [OF a] kt [OF b] .
    then have "(fst (?p a), snd (?p a)) \<le> (fst (?p b), snd (?p b))"
      by (simp only: pair_list_le)
    then show "?p a \<le> ?p b" by simp
  qed
  then have sorted: "sorted (map ?p ?L)" by (simp add: sorted_wrt_map)
  have "inj_on ?p (set ?L)"
  proof (rule inj_onI)
    fix a b assume a: "a \<in> set ?L" and b: "b \<in> set ?L" and eq: "?p a = ?p b"
    from eq have "version_key (?sel a) = version_key (?sel b)" by (simp only: version_key_eq_iff)
    moreover have "version_key (?sel a) = a" using sel [OF a] by (rule conjunct2)
    moreover have "version_key (?sel b) = b" using sel [OF b] by (rule conjunct2)
    ultimately show "a = b" by (rule box_equals)
  qed
  with distL have dist: "distinct (map ?p ?L)" by (simp add: distinct_map)
  have set_eq: "set (map ?p ?L) = parse_version ` set xs"
  proof
    show "set (map ?p ?L) \<subseteq> parse_version ` set xs"
    proof
      fix v assume "v \<in> set (map ?p ?L)"
      then obtain k where k: "k \<in> set ?L" and v: "v = ?p k" unfolding set_map by (rule imageE)
      from sel [OF k] have "?sel k \<in> set xs" by (rule conjunct1)
      with v show "v \<in> parse_version ` set xs" by (rule image_eqI)
    qed
    show "parse_version ` set xs \<subseteq> set (map ?p ?L)"
    proof
      fix v assume "v \<in> parse_version ` set xs"
      then obtain t where t: "t \<in> set xs" and v: "v = parse_version t" by blast
      then have k: "version_key t \<in> set ?L" using setL by simp
      from sel [OF k] have "version_key (?sel (version_key t)) = version_key t"
        by (rule conjunct2)
      then have "?p (version_key t) = parse_version t"
        by (simp only: version_key_eq_iff)
      with v have "v = ?p (version_key t)" by simp
      from this k show "v \<in> set (map ?p ?L)" unfolding set_map by (rule image_eqI)
    qed
  qed
  have "map ?p ?L = sort (remdups (map parse_version xs))"
  proof (rule sorted_distinct_set_unique)
    show "sorted (map ?p ?L)" by (rule sorted)
    show "distinct (map ?p ?L)" by (rule dist)
    show "sorted (sort (remdups (map parse_version xs)))" by simp
    show "distinct (sort (remdups (map parse_version xs)))" by simp
    show "set (map ?p ?L) = set (sort (remdups (map parse_version xs)))"
      using set_eq by simp
  qed
  then have "rev (map ?p ?L) = rev (sort (remdups (map parse_version xs)))" by simp
  then show ?thesis by (simp add: K_def sorted_reverse_def rev_map)
qed


lemma first_seen_in_all:
  "set (map (\<lambda>k. hd (filter (\<lambda>t. version_key t = k) xs))
          (sorted_reverse key_tuple (map fst (group_versions xs)))) \<subseteq> set xs"
proof
  fix t assume "t \<in> set (map (\<lambda>k. hd (filter (\<lambda>t. version_key t = k) xs))
          (sorted_reverse key_tuple (map fst (group_versions xs))))"
  then obtain k where k: "k \<in> set (sorted_reverse key_tuple (map fst (group_versions xs)))"
    and t: "t = hd (filter (\<lambda>t. version_key t = k) xs)" unfolding set_map by (rule imageE)
  from k sorted_keys_in_groups [of xs] have "k \<in> version_key ` set xs" by blast
  from hd_group [OF this] t show "t \<in> set xs" by simp
qed


text \<open>
  C1 (as the code has it). For every list of release tags, the node-daemon listing looks
  at the first 20 tags that are not release candidates only. Of those it returns one tag
  per \<open>(major, minor)\<close> group, a member of that group, the groups in strictly descending
  order of \<open>(major, minor)\<close>, cut to the 5 highest. (Which member of a group is returned
  is not part of this statement.)
\<close>

theorem get_bitcoin_versions_groups:
  "map parse_version (get_bitcoin_versions (releases tags))
     = take 5 (rev (sort (remdups (map parse_version
         (take 20 (filter (\<lambda>t. \<not> py_in ''rc'' (lower t)) tags))))))
   \<and> set (get_bitcoin_versions (releases tags))
       \<subseteq> set (take 20 (filter (\<lambda>t. \<not> py_in ''rc'' (lower t)) tags))"
proof -
  let ?all = "take 20 (filter (\<lambda>t. \<not> py_in ''rc'' (lower t)) tags)"
  let ?picked = "map (\<lambda>k. hd (filter (\<lambda>t. version_key t = k) ?all))
      (sorted_reverse key_tuple (map fst (group_versions ?all)))"
  have res: "get_bitcoin_versions (releases tags) = take 5 ?picked"
    using get_bitcoin_versions_first_seen [of tags] by (simp only: Let_def)
  have "map parse_version (take 5 ?picked) = take 5 (map parse_version ?picked)"
    by (rule take_map [symmetric])
  also have "map parse_version ?picked = rev (sort (remdups (map parse_version ?all)))"
    using descending_keys [of ?all] by (simp only: map_map comp_def)
  finally have keys: "map parse_version (get_bitcoin_versions (releases tags))
      = take 5 (rev (sort (remdups (map parse_version ?all))))"
    unfolding res .
  have "set (take 5 ?picked) \<subseteq> set ?picked" by (rule set_take_subset)
  also have "\<dots> \<subseteq> set ?all" by (rule first_seen_in_all)
  finally have "set (get_bitcoin_versions (releases tags)) \<subseteq> set ?all"
    unfolding res .
  with keys show ?thesis by (rule conjI)
qed


theorem get_bitcoin_versions_groups_witness:
  "map parse_version (get_bitcoin_versions (releases [''v28.0'', ''v30.0rc1'', ''v29.0'', ''v0.21.1'', ''v0.21.0'']))
     = [(29, 0), (28, 0), (0, 21)]"
proof -
  have "take 5 (rev (sort (remdups (map parse_version
         (take 20 (filter (\<lambda>t. \<not> py_in ''rc'' (lower t))
            [''v28.0'', ''v30.0rc1'', ''v29.0'', ''v0.21.1'', ''v0.21.0'']))))))
       = [(29, 0), (28, 0), (0, 21)]"
    by code_simp
  with get_bitcoin_versions_groups [of "[''v28.0'', ''v30.0rc1'', ''v29.0'', ''v0.21.1'', ''v0.21.0'']"]
  show ?thesis by (simp only:)
qed


text \<open>
  The claim as stated fails on a listing of more than 20 releases: the 21st tag opens a
  group of its own, higher than every other, and the result, which has room left, holds
  no tag of that group.
\<close>

theorem group_cap_20_counterexample:
  "get_bitcoin_versions (releases (replicate 20 ''v1.0'' @ [''v2.0''])) = [''v1.0'']
   \<and> \<not> py_in ''rc'' (lower ''v2.0'')
   \<and> parse_version ''v2.0'' = (2, 0)
   \<and> parse_version ''v1.0'' = (1, 0)
   \<and> parse_version ''v2.0'' \<notin> set (map parse_version
         (get_bitcoin_versions (releases (replicate 20 ''v1.0'' @ [''v2.0'']))))"
  by code_simp


text \<open>
  Two evaluations. \<^verbatim>\<open>parse_version\<close> reads two components only, so the four tags of the
  specification's example are four groups; and inside a group the sort key is the same for
  every tag, so the stable sort keeps the tag seen first, whatever its third component.
\<close>

lemma spec_example_all_four:
  "get_bitcoin_versions (releases [''v29.1'', ''v29.0'', ''v28.3'', ''v28.0''])
     = [''v29.1'', ''v29.0'', ''v28.3'', ''v28.0'']"
  by code_simp


lemma first_seen_not_highest_patch:
  "get_bitcoin_versions (releases [''v0.21.0'', ''v0.21.1'']) = [''v0.21.0'']"
  by code_simp

section \<open>Properties of the environment setup\<close>

lemma dict_set_other: "b \<noteq> a \<Longrightarrow> dicts (dict_set a key v p) b = dicts p b"
  by (simp add: dict_set_def)

lemma dict_set_key: "k \<noteq> key \<Longrightarrow> dicts (dict_set a key v p) b k = dicts p b k"
  by (simp add: dict_set_def)

lemma set_flags_other: "b \<noteq> a \<Longrightarrow> dicts (set_flags a flags p) b = dicts p b"
  by (induction a flags p rule: set_flags.induct) (simp_all add: dict_set_other)

lemma set_flags_key: "k \<notin> fst ` set flags \<Longrightarrow> dicts (set_flags a flags p) b k = dicts p b k"
proof (induction a flags p rule: set_flags.induct)
  case (1 env p)
  then show ?case by simp
next
  case (2 env key v flags p)
  then have "k \<noteq> key" and "k \<notin> fst ` set flags" by auto
  with "2.IH" show ?case by (simp add: dict_set_key)
qed

lemma llvm_setup_other: "b \<noteq> a \<Longrightarrow> dicts (llvm_setup h a prefixes p) b = dicts p b"
  by (induction prefixes) (simp_all add: dict_set_other split: option.splits)

lemma llvm_setup_key:
  "k \<noteq> ''LIBCLANG_PATH'' \<Longrightarrow> k \<noteq> ''DYLD_LIBRARY_PATH'' \<Longrightarrow>
   dicts (llvm_setup h a prefixes p) b k = dicts p b k"
  by (induction prefixes) (simp_all add: dict_set_key split: option.splits)

lemma optimization_flag_keys:
  "fst ` set (get_optimization_flags arch use_aggressive) = {''CFLAGS'', ''CXXFLAGS'', ''LDFLAGS''}"
  by (cases arch; cases use_aggressive) (simp_all add: get_optimization_flags_def Let_def)

lemma trace_dict_set: "trace (dict_set a key v p) = trace p"
  by (simp add: dict_set_def)

lemma trace_set_flags: "trace (set_flags a flags p) = trace p"
  by (induction a flags p rule: set_flags.induct) (simp_all add: trace_dict_set)

lemma trace_llvm_setup: "trace (llvm_setup h a prefixes p) = trace p"
  by (induction prefixes) (simp_all add: trace_dict_set split: option.splits)


lemma setup_build_environment_effect:
  assumes "os_environ < next_addr p"
  shows "case setup_build_environment h use_aggressive_opts p of (env, p') \<Rightarrow>
           dicts p' os_environ = dicts p os_environ \<and> env \<noteq> os_environ \<and> trace p' = trace p
           \<and> (\<forall>k. k \<noteq> ''PATH'' \<and> k \<noteq> ''LIBCLANG_PATH'' \<and> k \<noteq> ''DYLD_LIBRARY_PATH''
                    \<and> k \<noteq> ''CFLAGS'' \<and> k \<noteq> ''CXXFLAGS'' \<and> k \<noteq> ''LDFLAGS''
                  \<longrightarrow> dicts p' env k = dicts p os_environ k)"
proof -
  let ?env = "next_addr p"
  let ?p1 = "p\<lparr>dicts := (dicts p)(?env := dicts p os_environ), next_addr := Suc ?env\<rparr>"
  let ?flags = "get_optimization_flags (ARCH h) use_aggressive_opts"
  let ?prefixes = "[map_option (\<lambda>prefix. prefix @ ''/opt/llvm'') (BREW_PREFIX h),
          Some ''/opt/homebrew/opt/llvm'', Some ''/usr/local/opt/llvm'']"
  let ?path = "join '':'' (unique_paths (path_components h
                (case dicts ?p1 ?env ''PATH'' of None \<Rightarrow> [] | Some v \<Rightarrow> v)) {} [])"
  let ?p' = "set_flags ?env ?flags (llvm_setup h ?env ?prefixes (dict_set ?env ''PATH'' ?path ?p1))"
  have copy: "dict_copy os_environ p = (?env, ?p1)" by (simp add: dict_copy_def)
  from assms have ne: "os_environ \<noteq> ?env" by simp
  have res: "setup_build_environment h use_aggressive_opts p = (?env, ?p')"
    unfolding setup_build_environment_def copy by (simp only: Let_def prod.case)
  have frame: "dicts ?p' os_environ = dicts p os_environ"
    using ne by (simp add: set_flags_other llvm_setup_other dict_set_other
        del: llvm_setup.simps set_flags.simps)
  have tr: "trace ?p' = trace p"
    by (simp add: trace_set_flags trace_llvm_setup trace_dict_set
        del: llvm_setup.simps set_flags.simps)
  have copy_keys: "dicts ?p' ?env k = dicts p os_environ k"
    if "k \<noteq> ''PATH''" "k \<noteq> ''LIBCLANG_PATH''" "k \<noteq> ''DYLD_LIBRARY_PATH''"
       "k \<noteq> ''CFLAGS''" "k \<noteq> ''CXXFLAGS''" "k \<noteq> ''LDFLAGS''" for k
  proof -
    from that have "k \<notin> fst ` set ?flags"
      unfolding optimization_flag_keys by simp
    then have "dicts ?p' ?env k
        = dicts (llvm_setup h ?env ?prefixes (dict_set ?env ''PATH'' ?path ?p1)) ?env k"
      by (rule set_flags_key)
    also have "\<dots> = dicts (dict_set ?env ''PATH'' ?path ?p1) ?env k"
      using that by (intro llvm_setup_key)
    also have "\<dots> = dicts ?p1 ?env k"
      using that by (intro dict_set_key)
    also have "\<dots> = dicts p os_environ k" by simp
    finally show ?thesis .
  qed
  have rest: "\<forall>k. k \<noteq> ''PATH'' \<and> k \<noteq> ''LIBCLANG_PATH'' \<and> k \<noteq> ''DYLD_LIBRARY_PATH''
                    \<and> k \<noteq> ''CFLAGS'' \<and> k \<noteq> ''CXXFLAGS'' \<and> k \<noteq> ''LDFLAGS''
                  \<longrightarrow> dicts ?p' ?env k = dicts p os_environ k"
  proof (intro allI impI)
    fix k :: string
    assume "k \<noteq> ''PATH'' \<and> k \<noteq> ''LIBCLANG_PATH'' \<and> k \<noteq> ''DYLD_LIBRARY_PATH''
                    \<and> k \<noteq> ''CFLAGS'' \<and> k \<noteq> ''CXXFLAGS'' \<and> k \<noteq> ''LDFLAGS''"
    then have "k \<noteq> ''PATH''" "k \<noteq> ''LIBCLANG_PATH''" "k \<noteq> ''DYLD_LIBRARY_PATH''"
       "k \<noteq> ''CFLAGS''" "k \<noteq> ''CXXFLAGS''" "k \<noteq> ''LDFLAGS''" by simp_all
    then show "dicts ?p' ?env k = dicts p os_environ k"
      by (rule copy_keys)
  qed
  from frame ne [symmetric] tr rest show ?thesis
    unfolding res prod.case by (intro conjI)
qed

text \<open>
  C6. Composing a build environment, for every architecture, Homebrew prefix and
  optimization tier, leaves the dictionary \<^verbatim>\<open>os.environ\<close> as it was: the environment
  returned is another object, a copy that differs from \<^verbatim>\<open>os.environ\<close> in the six
  variables the function sets at most, and nothing is done to the outside.
\<close>

theorem setup_build_environment_frame:
  assumes "os_environ < next_addr p"
  shows "case setup_build_environment h use_aggressive_opts p of (env, p') \<Rightarrow>
           dicts p' os_environ = dicts p os_environ \<and> env \<noteq> os_environ \<and> trace p' = trace p
           \<and> (\<forall>k. k \<noteq> ''PATH'' \<and> k \<noteq> ''LIBCLANG_PATH'' \<and> k \<noteq> ''DYLD_LIBRARY_PATH''
                    \<and> k \<noteq> ''CFLAGS'' \<and> k \<noteq> ''CXXFLAGS'' \<and> k \<noteq> ''LDFLAGS''
                  \<longrightarrow> dicts p' env k = dicts p os_environ k)"
  using assms by (rule setup_build_environment_effect)

theorem setup_build_environment_frame_witness:
  "(case setup_build_environment plain_host True (module_init plain_host fresh_process) of
      (env, p') \<Rightarrow>
        dicts p' os_environ = dicts (module_init plain_host fresh_process) os_environ
        \<and> env \<noteq> os_environ
        \<and> dicts p' env ''HOME'' = dicts (module_init plain_host fresh_process) os_environ ''HOME'')
   \<and> dicts (module_init plain_host fresh_process) os_environ ''PATH''
       = Some ''/opt/homebrew/bin:/usr/local/bin:/usr/bin:/bin:/usr/sbin:/sbin:/Users/u/.cargo/bin''"
proof -
  have alloc: "os_environ < next_addr (module_init plain_host fresh_process)"
    by (simp add: module_init_def dict_set_def fresh_process_def os_environ_def)
  have path: "dicts (module_init plain_host fresh_process) os_environ ''PATH''
       = Some ''/opt/homebrew/bin:/usr/local/bin:/usr/bin:/bin:/usr/sbin:/sbin:/Users/u/.cargo/bin''"
    by (simp add: module_init_def dict_set_def fresh_process_def module_path_def plain_host_def)
  obtain env p' where r: "setup_build_environment plain_host True
      (module_init plain_host fresh_process) = (env, p')"
    by (cases "setup_build_environment plain_host True (module_init plain_host fresh_process)")
  from setup_build_environment_frame [OF alloc, of plain_host True]
  have f: "dicts p' os_environ = dicts (module_init plain_host fresh_process) os_environ
           \<and> env \<noteq> os_environ \<and> trace p' = trace (module_init plain_host fresh_process)
           \<and> (\<forall>k. k \<noteq> ''PATH'' \<and> k \<noteq> ''LIBCLANG_PATH'' \<and> k \<noteq> ''DYLD_LIBRARY_PATH''
                    \<and> k \<noteq> ''CFLAGS'' \<and> k \<noteq> ''CXXFLAGS'' \<and> k \<noteq> ''LDFLAGS''
                  \<longrightarrow> dicts p' env k = dicts (module_init plain_host fresh_process) os_environ k)"
    unfolding r prod.case .
  then have "dicts p' env ''HOME'' = dicts (module_init plain_host fresh_process) os_environ ''HOME''"
    by simp
  with f path show ?thesis unfolding r prod.case by simp
qed


text \<open>
  The one write to \<^verbatim>\<open>os.environ\<close> is the module-level assignment, outside the function.
\<close>

lemma module_init_writes_environ:
  "dicts (module_init h p) os_environ ''PATH'' = Some (module_path h)"
  by (simp add: module_init_def dict_set_def)

section \<open>Properties of the search path\<close>

text \<open>
  The loop over the components removes empty and repeated components and keeps the first
  occurrence of each, in order.
\<close>

lemma unique_paths_acc: "unique_paths qs seen acc = acc @ unique_paths qs seen []"
proof (induction qs arbitrary: seen acc)
  case Nil
  show ?case by simp
next
  case (Cons q qs)
  show ?case
  proof (cases "q \<noteq> [] \<and> q \<notin> seen")
    case True
    have "unique_paths (q # qs) seen acc = unique_paths qs (insert q seen) (acc @ [q])"
      using True by simp
    also have "\<dots> = (acc @ [q]) @ unique_paths qs (insert q seen) []" by (rule Cons.IH)
    also have "\<dots> = acc @ unique_paths qs (insert q seen) [q]"
      using Cons.IH [of "insert q seen" "[q]"] by simp
    also have "\<dots> = acc @ unique_paths (q # qs) seen []" using True by simp
    finally show ?thesis .
  next
    case False
    then have "unique_paths (q # qs) seen acc = unique_paths qs seen acc"
      and "unique_paths (q # qs) seen [] = unique_paths qs seen []" by auto
    with Cons.IH [of seen acc] show ?thesis by simp
  qed
qed

lemma unique_paths_Cons:
  "unique_paths (q # qs) seen [] =
     (if q \<noteq> [] \<and> q \<notin> seen then q # unique_paths qs (insert q seen) []
      else unique_paths qs seen [])"
  using unique_paths_acc [of qs "insert q seen" "[q]"] by simp

lemma set_unique_paths: "set (unique_paths qs seen []) = set qs - seen - {[]}"
proof (induction qs arbitrary: seen)
  case Nil
  show ?case by simp
next
  case (Cons q qs)
  show ?case unfolding unique_paths_Cons using Cons.IH by auto
qed

lemma distinct_unique_paths: "distinct (unique_paths qs seen [])"
proof (induction qs arbitrary: seen)
  case Nil
  show ?case by simp
next
  case (Cons q qs)
  show ?case unfolding unique_paths_Cons using Cons.IH by (simp add: set_unique_paths)
qed

lemma unique_paths_first_seen:
  "unique_paths qs seen [] = rev (remdups (rev (filter (\<lambda>q. q \<noteq> [] \<and> q \<notin> seen) qs)))"
proof (induction qs arbitrary: seen)
  case Nil
  show ?case by simp
next
  case (Cons q qs)
  have snoc: "remdups (ys @ [y]) = remdups (filter (\<lambda>x. x \<noteq> y) ys) @ [y]" for ys :: "string list" and y
    by (induction ys) auto
  show ?case
  proof (cases "q \<noteq> [] \<and> q \<notin> seen")
    case True
    have "filter (\<lambda>x. x \<noteq> q) (rev (filter (\<lambda>x. x \<noteq> [] \<and> x \<notin> seen) qs))
        = rev (filter (\<lambda>x. x \<noteq> [] \<and> x \<notin> insert q seen) qs)"
      unfolding rev_filter [symmetric] filter_filter by (rule arg_cong [where f = rev], rule filter_cong) auto
    then show ?thesis
      unfolding unique_paths_Cons using True Cons.IH [of "insert q seen"] by (simp add: snoc)
  next
    case False
    then show ?thesis unfolding unique_paths_Cons using Cons.IH [of seen] by auto
  qed
qed

lemma unique_paths_example:
  "unique_paths [''A'', ''B'', ''A'', ''C''] {} [] = [''A'', ''B'', ''C'']"
  by simp


text \<open>
  C7, evaluated. The inherited \<^verbatim>\<open>PATH\<close> is appended as a single component and never
  split at its colons, so the entries it holds are not compared with the components
  before it. With the \<^verbatim>\<open>PATH\<close> that the module itself sets at import, the composed
  search path lists \<^verbatim>\<open>/opt/homebrew/bin\<close> and \<^verbatim>\<open>/usr/local/bin\<close> twice.
\<close>

theorem composed_path_repeats_entries:
  "(case setup_build_environment plain_host False (module_init plain_host fresh_process) of
      (env, p) \<Rightarrow> dicts p env ''PATH'')
     = Some ''/opt/homebrew/bin:/usr/local/bin:/opt/homebrew/bin:/usr/local/bin:/usr/bin:/bin:/usr/sbin:/sbin:/Users/u/.cargo/bin''
   \<and> \<not> distinct (split_on CHR '':''
       ''/opt/homebrew/bin:/usr/local/bin:/opt/homebrew/bin:/usr/local/bin:/usr/bin:/bin:/usr/sbin:/sbin:/Users/u/.cargo/bin'')"
  by code_simp

section \<open>Properties of the artifact collection\<close>

lemma trace_emit: "trace (emit ev p) = trace p @ [ev]"
  by (simp add: emit_def)

lemma emit_as_update: "emit ev p = p\<lparr>trace := trace p @ [ev]\<rparr>"
  by (simp add: emit_def)

lemma copy_loop_exact:
  "copy_loop h dest_dir binary_files copied p =
     (copied @ map (\<lambda>b. path_join dest_dir (basename b))
        (filter (\<lambda>b. path_exists h b
             \<and> \<not> copy2_raises h b (path_join dest_dir (basename b))
             \<and> \<not> chmod_raises h (path_join dest_dir (basename b))) binary_files),
      p\<lparr>trace := trace p @ concat (map (\<lambda>b.
          if path_exists h b
          then if copy2_raises h b (path_join dest_dir (basename b))
               then [Logged (Failed_to_copy (basename b))]
               else if chmod_raises h (path_join dest_dir (basename b))
               then [Copy2 b (path_join dest_dir (basename b)), Logged (Failed_to_copy (basename b))]
               else [Copy2 b (path_join dest_dir (basename b)),
                     Chmod (path_join dest_dir (basename b)) 493]
          else [Logged (Binary_not_found b)]) binary_files)\<rparr>)"
proof (induction binary_files arbitrary: copied p)
  case Nil
  show ?case by simp
next
  case (Cons b bs)
  show ?case
  proof (cases "path_exists h b")
    case False
    then show ?thesis by (simp add: Cons.IH emit_as_update)
  next
    case True
    show ?thesis
    proof (cases "copy2_raises h b (path_join dest_dir (basename b))")
      case c: True
      with True show ?thesis by (simp add: Cons.IH emit_as_update Let_def)
    next
      case c: False
      show ?thesis
      proof (cases "chmod_raises h (path_join dest_dir (basename b))")
        case m: True
        with True c show ?thesis by (simp add: Cons.IH emit_as_update Let_def)
      next
        case m: False
        with True c show ?thesis by (simp add: Cons.IH emit_as_update Let_def)
      qed
    qed
  qed
qed

lemma makedirs_ok:
  "\<not> makedirs_raises h path \<Longrightarrow> makedirs h path p = (Inr (), p\<lparr>trace := trace p @ [Made_dirs path]\<rparr>)"
  by (simp add: makedirs_def emit_as_update)

lemma makedirs_raising: "makedirs_raises h path \<Longrightarrow> makedirs h path p = (Inl OSError, p)"
  by (simp add: makedirs_def)


text \<open>
  C2 (as the code has it). \<^verbatim>\<open>copy_binaries\<close> raises only when the destination
  directory cannot be made. Otherwise it returns the destination paths of the candidates
  that exist and whose copy and \<^verbatim>\<open>chmod\<close> went through, in order, and what it does is
  exactly this, candidate by candidate: a candidate that exists is copied and made
  executable (mode 493, that is \<^verbatim>\<open>0o755\<close>); one whose copy raises is logged as failed,
  and so is one whose \<^verbatim>\<open>chmod\<close> raises after the copy; a candidate that does not exist
  is logged as not found, and nothing else happens for it: it appears nowhere in the value
  returned. The warning that nothing was copied is logged at the end exactly when the list
  returned is empty.
\<close>

theorem copy_binaries_result:
  "copy_binaries h src_dir dest_dir binary_files p =
     (if makedirs_raises h dest_dir then (Inl OSError, p)
      else (let copied = map (\<lambda>b. path_join dest_dir (basename b))
                  (filter (\<lambda>b. path_exists h b
                       \<and> \<not> copy2_raises h b (path_join dest_dir (basename b))
                       \<and> \<not> chmod_raises h (path_join dest_dir (basename b))) binary_files)
            in (Inr copied,
                p\<lparr>trace := trace p @ [Made_dirs dest_dir]
                   @ concat (map (\<lambda>b.
                       if path_exists h b
                       then if copy2_raises h b (path_join dest_dir (basename b))
                            then [Logged (Failed_to_copy (basename b))]
                            else if chmod_raises h (path_join dest_dir (basename b))
                            then [Copy2 b (path_join dest_dir (basename b)),
                                  Logged (Failed_to_copy (basename b))]
                            else [Copy2 b (path_join dest_dir (basename b)),
                                  Chmod (path_join dest_dir (basename b)) 493]
                       else [Logged (Binary_not_found b)]) binary_files)
                   @ (if copied = [] then [Logged No_binaries_copied] else [])\<rparr>)))"
proof (cases "makedirs_raises h dest_dir")
  case True
  then show ?thesis
    by (simp add: copy_binaries_def and_then_def makedirs_raising)
next
  case False
  then show ?thesis
    by (simp add: copy_binaries_def and_then_def makedirs_ok copy_loop_exact emit_as_update Let_def)
qed

theorem copy_binaries_result_witness:
  "copy_binaries (plain_host\<lparr>path_exists := (\<lambda>q. q \<noteq> ''/src/bin/bitcoin-cli''),
                              chmod_raises := (\<lambda>q. q = ''/out/bitcoin-tx'')\<rparr>)
       ''/src'' ''/out''
       [''/src/bin/bitcoind'', ''/src/bin/bitcoin-cli'', ''/src/bin/bitcoin-tx''] fresh_process
     = (Inr [''/out/bitcoind''],
        fresh_process\<lparr>trace :=
          [Made_dirs ''/out'',
           Copy2 ''/src/bin/bitcoind'' ''/out/bitcoind'', Chmod ''/out/bitcoind'' 493,
           Logged (Binary_not_found ''/src/bin/bitcoin-cli''),
           Copy2 ''/src/bin/bitcoin-tx'' ''/out/bitcoin-tx'', Logged (Failed_to_copy ''bitcoin-tx'')]\<rparr>)
   \<and> copy_binaries (plain_host\<lparr>makedirs_raises := (\<lambda>_. True)\<rparr>)
       ''/src'' ''/out'' [''/src/bin/bitcoind''] fresh_process
     = (Inl OSError, fresh_process)
   \<and> copy_binaries plain_host ''/src'' ''/out'' [''/src/bin/bitcoind''] fresh_process
     = (Inr [],
        fresh_process\<lparr>trace :=
          [Made_dirs ''/out'', Logged (Binary_not_found ''/src/bin/bitcoind''),
           Logged No_binaries_copied]\<rparr>)"
  using copy_binaries_result [of "plain_host\<lparr>path_exists := (\<lambda>q. q \<noteq> ''/src/bin/bitcoin-cli''),
                              chmod_raises := (\<lambda>q. q = ''/out/bitcoin-tx'')\<rparr>"
          "''/src''" "''/out''"
          "[''/src/bin/bitcoind'', ''/src/bin/bitcoin-cli'', ''/src/bin/bitcoin-tx'']" fresh_process]
    copy_binaries_result [of "plain_host\<lparr>makedirs_raises := (\<lambda>_. True)\<rparr>"
          "''/src''" "''/out''" "[''/src/bin/bitcoind'']" fresh_process]
    copy_binaries_result [of plain_host "''/src''" "''/out''" "[''/src/bin/bitcoind'']" fresh_process]
  by (simp add: plain_host_def path_join_def basename_def fresh_process_def Let_def)

text \<open>
  The claim as stated fails: the value returned is the same with and without the missing
  candidate, so it records no missing artifact; and a candidate that exists is not
  recorded as copied when its copy raises.
\<close>

theorem copy_binaries_counterexample:
  "fst (copy_binaries (plain_host\<lparr>path_exists := (\<lambda>q. q \<noteq> ''/src/bin/bitcoin-cli'')\<rparr>)
          ''/src'' ''/out''
          [''/src/bin/bitcoind'', ''/src/bin/bitcoin-cli'', ''/src/bin/bitcoin-tx''] fresh_process)
     = Inr [''/out/bitcoind'', ''/out/bitcoin-tx'']
   \<and> fst (copy_binaries (plain_host\<lparr>path_exists := (\<lambda>q. q \<noteq> ''/src/bin/bitcoin-cli'')\<rparr>)
          ''/src'' ''/out''
          [''/src/bin/bitcoind'', ''/src/bin/bitcoin-tx''] fresh_process)
     = Inr [''/out/bitcoind'', ''/out/bitcoin-tx'']
   \<and> fst (copy_binaries (plain_host\<lparr>path_exists := (\<lambda>q. True), copy2_raises := (\<lambda>_ _. True)\<rparr>)
          ''/src'' ''/out'' [''/src/bin/bitcoind''] fresh_process)
     = Inr []"
  by code_simp

section \<open>Properties of the build pipelines\<close>

lemma commands_run_trace: "trace p' = trace p \<Longrightarrow> commands_run p' = commands_run p"
  by (simp add: commands_run_def)

lemma commands_run_append:
  "trace p' = trace p @ evs \<Longrightarrow>
   commands_run p' = commands_run p @ concat (map (\<lambda>ev. case ev of Ran cmd cwd \<Rightarrow> [cmd] | _ \<Rightarrow> []) evs)"
  by (simp add: commands_run_def)

lemma git_only_refl: "git_only p p"
  by (simp add: git_only_def)

lemma git_only_trans:
  assumes "git_only p p1" "git_only p1 p2"
  shows "git_only p p2"
proof -
  from assms obtain c1 c2 where
    c1: "commands_run p1 = commands_run p @ c1" "list_all (\<lambda>c. take 4 c = ''git '') c1"
    and c2: "commands_run p2 = commands_run p1 @ c2" "list_all (\<lambda>c. take 4 c = ''git '') c2"
    unfolding git_only_def by blast
  then have "commands_run p2 = commands_run p @ (c1 @ c2)"
    and "list_all (\<lambda>c. take 4 c = ''git '') (c1 @ c2)" by simp_all
  then have "\<exists>cmds. commands_run p2 = commands_run p @ cmds \<and> list_all (\<lambda>c. take 4 c = ''git '') cmds"
    by blast
  moreover have "dicts p2 os_environ = dicts p os_environ" "next_addr p \<le> next_addr p2"
    using assms unfolding git_only_def by simp_all
  ultimately show ?thesis unfolding git_only_def by blast
qed

lemma git_only_quiet:
  assumes "dicts p' os_environ = dicts p os_environ" "next_addr p \<le> next_addr p'"
    "commands_run p' = commands_run p"
  shows "git_only p p'"
  unfolding git_only_def using assms by (intro conjI exI [of _ "[]"]) simp_all

lemma and_then_abort:
  assumes "\<And>r p1. m p = (r, p1) \<Longrightarrow> git_only p p1"
    and "\<And>x p1. m p = (Inr x, p1) \<Longrightarrow> \<exists>e p'. f x p1 = (Inl e, p') \<and> git_only p1 p'"
  shows "\<exists>e p'. and_then m f p = (Inl e, p') \<and> git_only p p'"
proof -
  obtain r p1 where m: "m p = (r, p1)" by (cases "m p")
  show ?thesis
  proof (cases r)
    case (Inl e)
    with m have "and_then m f p = (Inl e, p1)" by (simp add: and_then_def)
    with assms(1) [OF m] show ?thesis by blast
  next
    case (Inr x)
    with m assms(2) obtain e p' where f: "f x p1 = (Inl e, p')" and g: "git_only p1 p'" by blast
    from m Inr f have "and_then m f p = (Inl e, p')" by (simp add: and_then_def)
    with git_only_trans [OF assms(1) [OF m] g] show ?thesis by blast
  qed
qed

lemma and_then_git_only:
  assumes "\<And>r p1. m p = (r, p1) \<Longrightarrow> git_only p p1"
    and "\<And>x p1 r p'. m p = (Inr x, p1) \<Longrightarrow> f x p1 = (r, p') \<Longrightarrow> git_only p1 p'"
    and "and_then m f p = (r, p')"
  shows "git_only p p'"
proof -
  obtain r1 p1 where m: "m p = (r1, p1)" by (cases "m p")
  show ?thesis
  proof (cases r1)
    case (Inl e)
    with m assms(3) have "p' = p1" by (simp add: and_then_def)
    with assms(1) [OF m] show ?thesis by simp
  next
    case (Inr x)
    with m assms(3) have "f x p1 = (r, p')" by (simp add: and_then_def)
    from assms(2) [OF m [unfolded Inr] this] assms(1) [OF m] show ?thesis
      by (blast intro: git_only_trans)
  qed
qed

lemma makedirs_git_only: "makedirs h path p = (r, p') \<Longrightarrow> git_only p p'"
  by (rule git_only_quiet) (auto simp: makedirs_def emit_def commands_run_def split: if_splits)

lemma run_command_effect:
  assumes "run_command h cmd cwd env p = (r, p')" "os_environ < next_addr p"
  shows "dicts p' os_environ = dicts p os_environ \<and> next_addr p \<le> next_addr p'
       \<and> trace p' = trace p @ [Ran cmd cwd]"
proof (cases env)
  case None
  with assms show ?thesis
    by (auto simp: run_command_def dict_copy_def emit_def Let_def
        split: completed.splits if_splits)
next
  case (Some a)
  with assms show ?thesis
    by (auto simp: run_command_def emit_def Let_def split: completed.splits if_splits)
qed

lemma run_git_only:
  assumes "run_command h cmd cwd env p = (r, p')" "os_environ < next_addr p" "take 4 cmd = ''git ''"
  shows "git_only p p'"
proof -
  from run_command_effect [OF assms(1,2)] have
    d: "dicts p' os_environ = dicts p os_environ" and n: "next_addr p \<le> next_addr p'"
    and t: "trace p' = trace p @ [Ran cmd cwd]" by simp_all
  from commands_run_append [OF t] have "commands_run p' = commands_run p @ [cmd]" by simp
  moreover have "list_all (\<lambda>c. take 4 c = ''git '') [cmd]" using assms(3) by simp
  ultimately show ?thesis unfolding git_only_def using d n by blast
qed

lemma git_only_alloc: "git_only p p' \<Longrightarrow> os_environ < next_addr p \<Longrightarrow> os_environ < next_addr p'"
  by (simp add: git_only_def)

lemma acquire_source_git_only:
  assumes "acquire_source h repo version build_dir src_dir env p = (r, p')" "os_environ < next_addr p"
  shows "git_only p p'"
proof (cases "path_exists h src_dir")
  case False
  let ?clone = "''git clone --depth 1 --branch '' @ version @ '' '' @ repo @ '' '' @ src_dir"
  from False assms(1) have a: "and_then (run_command h ?clone (Some build_dir) env) (\<lambda>_. done_with ()) p = (r, p')"
    by (simp add: acquire_source_def)
  show ?thesis
  proof (rule and_then_git_only [OF _ _ a])
    fix r1 p1 assume "run_command h ?clone (Some build_dir) env p = (r1, p1)"
    then show "git_only p p1" using assms(2) by (rule run_git_only) simp
  next
    fix x p1 r2 p2 assume "done_with () p1 = (r2, p2)"
    then show "git_only p1 p2" by (simp add: done_with_def git_only_refl)
  qed
next
  case True
  let ?fetch = "''git fetch --depth 1 origin tag '' @ version"
  let ?checkout = "''git checkout '' @ version"
  from True assms(1) have a: "and_then (run_command h ?fetch (Some src_dir) env)
      (\<lambda>_. and_then (run_command h ?checkout (Some src_dir) env) (\<lambda>_. done_with ())) p = (r, p')"
    by (simp add: acquire_source_def)
  show ?thesis
  proof (rule and_then_git_only [OF _ _ a])
    fix r1 p1 assume "run_command h ?fetch (Some src_dir) env p = (r1, p1)"
    then show "git_only p p1" using assms(2) by (rule run_git_only) simp
  next
    fix x p1 r2 p2
    assume f: "run_command h ?fetch (Some src_dir) env p = (Inr x, p1)"
      and b: "and_then (run_command h ?checkout (Some src_dir) env) (\<lambda>_. done_with ()) p1 = (r2, p2)"
    from f assms(2) have "git_only p p1" by (rule run_git_only) simp
    from git_only_alloc [OF this assms(2)] have alloc1: "os_environ < next_addr p1" .
    show "git_only p1 p2"
    proof (rule and_then_git_only [OF _ _ b])
      fix r3 p3 assume "run_command h ?checkout (Some src_dir) env p1 = (r3, p3)"
      then show "git_only p1 p3" using alloc1 by (rule run_git_only) simp
    next
      fix y p3 r4 p4 assume "done_with () p3 = (r4, p4)"
      then show "git_only p3 p4" by (simp add: done_with_def git_only_refl)
    qed
  qed
qed

lemma verify_git_commit_environ:
  assumes "dicts p' os_environ = dicts p os_environ"
  shows "verify_git_commit h repo_dir expected_tag p' = verify_git_commit h repo_dir expected_tag p"
  unfolding verify_git_commit_def assms ..

lemma verify_git_commit_iff:
  "verify_git_commit h repo_dir expected_tag p \<longleftrightarrow>
     (\<exists>out1 out2. git_rev_parse_head h repo_dir (dicts p os_environ) = Completed 0 out1
        \<and> git_rev_list h expected_tag repo_dir (dicts p os_environ) = Completed 0 out2
        \<and> strip out1 = strip out2)"
  by (auto simp: verify_git_commit_def Let_def split: completed.splits)

lemma integrity_gate_result:
  "integrity_gate h src_dir project_name version p =
     (if verify_git_commit h src_dir version p then (Inr (), p)
      else (if askyesno h ''Source Verification Warning'' then Inr ()
            else Inl (RuntimeError ''Source verification failed''),
            p\<lparr>trace := trace p @ [Logged (Verification_failed project_name),
                                    Asked ''Source Verification Warning'']\<rparr>))"
  by (simp add: integrity_gate_def verify_source_integrity_def Let_def emit_def)

lemma integrity_gate_git_only:
  assumes "integrity_gate h src_dir project_name version p = (r, p')"
  shows "git_only p p'"
proof (cases "verify_git_commit h src_dir version p")
  case True
  with assms have "p' = p" by (simp add: integrity_gate_result)
  then show ?thesis by (simp add: git_only_refl)
next
  case False
  with assms have p': "p' = p\<lparr>trace := trace p @ [Logged (Verification_failed project_name),
                                    Asked ''Source Verification Warning'']\<rparr>"
    by (simp add: integrity_gate_result)
  show ?thesis
    by (rule git_only_quiet) (simp_all add: p' commands_run_def)
qed

lemma integrity_gate_abort:
  assumes "\<not> verify_git_commit h src_dir version p0" "\<not> askyesno h ''Source Verification Warning''"
    "dicts p os_environ = dicts p0 os_environ"
  shows "\<exists>e p'. and_then (integrity_gate h src_dir project_name version) f p = (Inl e, p') \<and> git_only p p'"
proof -
  have nv: "\<not> verify_git_commit h src_dir version p"
    unfolding verify_git_commit_environ [OF assms(3)] by (rule assms(1))
  obtain p' where g: "integrity_gate h src_dir project_name version p
      = (Inl (RuntimeError ''Source verification failed''), p')"
    using nv assms(2) by (simp add: integrity_gate_result)
  then have "and_then (integrity_gate h src_dir project_name version) f p
      = (Inl (RuntimeError ''Source verification failed''), p')"
    by (simp add: and_then_def)
  with integrity_gate_git_only [OF g] show ?thesis by blast
qed

lemma checkout_gate_abort:
  assumes "os_environ < next_addr p"
    and "\<not> verify_git_commit h src_dir version p0" "dicts p os_environ = dicts p0 os_environ"
    and "\<not> askyesno h ''Source Verification Warning''"
  shows "\<exists>e p'. and_then (makedirs h build_dir) (\<lambda>_.
            and_then (acquire_source h repo version build_dir src_dir env) (\<lambda>_.
            and_then (integrity_gate h src_dir project_name version) k)) p = (Inl e, p')
           \<and> git_only p p'"
proof (rule and_then_abort)
  fix r p1 assume "makedirs h build_dir p = (r, p1)"
  then show "git_only p p1" by (rule makedirs_git_only)
next
  fix x p1 assume m: "makedirs h build_dir p = (Inr x, p1)"
  from makedirs_git_only [OF m] have g1: "git_only p p1" .
  from git_only_alloc [OF g1 assms(1)] have a1: "os_environ < next_addr p1" .
  show "\<exists>e p'. and_then (acquire_source h repo version build_dir src_dir env)
          (\<lambda>_. and_then (integrity_gate h src_dir project_name version) k) p1 = (Inl e, p')
        \<and> git_only p1 p'"
  proof (rule and_then_abort)
    fix r p2 assume "acquire_source h repo version build_dir src_dir env p1 = (r, p2)"
    then show "git_only p1 p2" using a1 by (rule acquire_source_git_only)
  next
    fix y p2 assume "acquire_source h repo version build_dir src_dir env p1 = (Inr y, p2)"
    then have g2: "git_only p1 p2" using a1 by (rule acquire_source_git_only)
    from g1 g2 assms(3) have "dicts p2 os_environ = dicts p0 os_environ" by (simp add: git_only_def)
    from integrity_gate_abort [OF assms(2,4) this]
    show "\<exists>e p'. and_then (integrity_gate h src_dir project_name version) k p2 = (Inl e, p')
        \<and> git_only p2 p'" .
  qed
qed

lemma bitcoin_gate:
  assumes "os_environ < next_addr p"
    and "\<not> verify_git_commit h (path_join build_dir (''bitcoin-'' @ lstrip_v version)) version p"
    and "\<not> askyesno h ''Source Verification Warning''"
  shows "\<exists>e p'. compile_bitcoin_source h version build_dir cores use_aggressive_opts p = (Inl e, p')
           \<and> git_only p p'"
  unfolding compile_bitcoin_source_def Let_def
  by (rule checkout_gate_abort [OF assms(1,2) refl assms(3)])

lemma next_addr_dict_set: "next_addr (dict_set a key v p) = next_addr p"
  by (simp add: dict_set_def)

lemma next_addr_set_flags: "next_addr (set_flags a flags p) = next_addr p"
  by (induction a flags p rule: set_flags.induct) (simp_all add: next_addr_dict_set)

lemma next_addr_llvm_setup: "next_addr (llvm_setup h a prefixes p) = next_addr p"
  by (induction prefixes) (simp_all add: next_addr_dict_set split: option.splits)

lemma setup_build_environment_alloc:
  assumes "setup_build_environment h use_aggressive_opts p = (env, p1)"
  shows "env = next_addr p \<and> next_addr p1 = Suc (next_addr p)"
proof -
  let ?env = "next_addr p"
  let ?p1 = "p\<lparr>dicts := (dicts p)(?env := dicts p os_environ), next_addr := Suc ?env\<rparr>"
  have copy: "dict_copy os_environ p = (?env, ?p1)" by (simp add: dict_copy_def)
  from assms show ?thesis
    unfolding setup_build_environment_def copy Let_def prod.case
    by (auto simp: next_addr_set_flags next_addr_llvm_setup next_addr_dict_set
        simp del: llvm_setup.simps set_flags.simps)
qed

lemma electrs_env_git_only:
  assumes "os_environ < next_addr p"
    and "setup_build_environment h use_aggressive_opts p = (env, p1)"
  shows "git_only p (set_flags env flags p1) \<and> trace (set_flags env flags p1) = trace p"
proof -
  from setup_build_environment_effect [OF assms(1), of h use_aggressive_opts]
  have f: "dicts p1 os_environ = dicts p os_environ" "env \<noteq> os_environ" "trace p1 = trace p"
    unfolding assms(2) prod.case by simp_all
  from setup_build_environment_alloc [OF assms(2)] have n: "next_addr p \<le> next_addr p1" by simp
  have t: "trace (set_flags env flags p1) = trace p" using f(3) by (simp add: trace_set_flags)
  have "git_only p (set_flags env flags p1)"
  proof (rule git_only_quiet)
    show "dicts (set_flags env flags p1) os_environ = dicts p os_environ"
      using f(1,2) by (simp add: set_flags_other)
    show "next_addr p \<le> next_addr (set_flags env flags p1)"
      using n by (simp add: next_addr_set_flags)
    show "commands_run (set_flags env flags p1) = commands_run p"
      by (rule commands_run_trace [OF t])
  qed
  with t show ?thesis by simp
qed

lemma check_rust_cases:
  "check_rust h env p =
     (case cargo_version h (dicts p env) of
        Spawn_error \<Rightarrow> (Inl OSError, p)
      | Completed rc out \<Rightarrow>
          if rc \<noteq> 0
          then (Inl (RuntimeError ''Cargo not found - cannot compile Electrs''),
                p\<lparr>trace := trace p @ [Showed_error ''Rust Not Found'']\<rparr>)
          else (case rustc_version h (dicts p env) of
                  Spawn_error \<Rightarrow> (Inl OSError, p)
                | Completed rc' out' \<Rightarrow>
                    (Inr (), if rc' = 0 then p
                             else p\<lparr>trace := trace p @ [Logged Rustc_check_failed]\<rparr>)))"
  by (simp add: check_rust_def emit_def split: completed.splits)

lemma check_rust_git_only:
  assumes "check_rust h env p = (r, p')"
  shows "git_only p p' \<and> commands_run p' = commands_run p"
proof -
  from assms have "p' = p \<or> p' = p\<lparr>trace := trace p @ [Showed_error ''Rust Not Found'']\<rparr>
      \<or> p' = p\<lparr>trace := trace p @ [Logged Rustc_check_failed]\<rparr>"
    unfolding check_rust_cases by (auto split: completed.splits if_splits)
  then have c: "commands_run p' = commands_run p" and d: "dicts p' = dicts p"
    and n: "next_addr p' = next_addr p"
    by (auto simp: commands_run_def)
  then have "git_only p p'" by (intro git_only_quiet) simp_all
  with c show ?thesis by simp
qed

lemma compile_electrs_source_unfold:
  assumes "setup_build_environment h use_aggressive_opts p = (env, p1)"
  shows "compile_electrs_source h version build_dir cores use_aggressive_opts p =
     and_then (check_rust h env) (\<lambda>_.
       and_then (makedirs h build_dir) (\<lambda>_.
       and_then (acquire_source h ELECTRS_REPO version build_dir
                   (path_join build_dir (''electrs-'' @ lstrip_v version)) (Some env)) (\<lambda>_.
       and_then (integrity_gate h (path_join build_dir (''electrs-'' @ lstrip_v version))
                   ''Electrs'' version) (\<lambda>_.
       and_then (run_command h (''cargo build --release --jobs '' @ py_str cores)
                  (Some (path_join build_dir (''electrs-'' @ lstrip_v version))) (Some env)) (\<lambda>_.
       if \<not> path_exists h (path_join (path_join (path_join
              (path_join build_dir (''electrs-'' @ lstrip_v version)) ''target'') ''release'') ''electrs'')
       then raise (RuntimeError (''Electrs binary not found at expected location: '' @
              path_join (path_join (path_join
                (path_join build_dir (''electrs-'' @ lstrip_v version)) ''target'') ''release'') ''electrs''))
       else and_then (copy_binaries h (path_join build_dir (''electrs-'' @ lstrip_v version))
                        (path_join (path_join build_dir ''binaries'') (''electrs-'' @ lstrip_v version))
                        [path_join (path_join (path_join
                           (path_join build_dir (''electrs-'' @ lstrip_v version)) ''target'') ''release'') ''electrs''])
              (\<lambda>copied. done_with (path_join (path_join build_dir ''binaries'')
                                      (''electrs-'' @ lstrip_v version))))))))
       (set_flags env (get_rust_optimization_flags use_aggressive_opts) p1)"
  unfolding compile_electrs_source_def Let_def
  by (subst and_then_def) (simp only: assms prod.case sum.case)


lemma py_str_4: "py_str 4 = ''4''"
  by (simp add: py_str.simps digit_char_def)


lemma toolchain_then_gate_abort:
  assumes "os_environ < next_addr p"
    and "\<not> verify_git_commit h src_dir version p0" "dicts p os_environ = dicts p0 os_environ"
    and "\<not> askyesno h ''Source Verification Warning''"
  shows "\<exists>e p'. and_then (check_rust h env) (\<lambda>_.
            and_then (makedirs h build_dir) (\<lambda>_.
            and_then (acquire_source h repo version build_dir src_dir env') (\<lambda>_.
            and_then (integrity_gate h src_dir project_name version) k))) p = (Inl e, p')
           \<and> git_only p p'"
proof (rule and_then_abort)
  fix r p1 assume "check_rust h env p = (r, p1)"
  then show "git_only p p1" by (simp add: check_rust_git_only)
next
  fix x p1 assume c: "check_rust h env p = (Inr x, p1)"
  from check_rust_git_only [OF c] have g: "git_only p p1" by simp
  from git_only_alloc [OF g assms(1)] have a1: "os_environ < next_addr p1" .
  from g assms(3) have d1: "dicts p1 os_environ = dicts p0 os_environ" by (simp add: git_only_def)
  show "\<exists>e p'. and_then (makedirs h build_dir) (\<lambda>_.
            and_then (acquire_source h repo version build_dir src_dir env') (\<lambda>_.
            and_then (integrity_gate h src_dir project_name version) k)) p1 = (Inl e, p')
           \<and> git_only p1 p'"
    by (rule checkout_gate_abort [OF a1 assms(2) d1 assms(4)])
qed

lemma electrs_gate:
  assumes "os_environ < next_addr p"
    and "\<not> verify_git_commit h (path_join build_dir (''electrs-'' @ lstrip_v version)) version p"
    and "\<not> askyesno h ''Source Verification Warning''"
  shows "\<exists>e p'. compile_electrs_source h version build_dir cores use_aggressive_opts p = (Inl e, p')
           \<and> git_only p p'"
proof -
  obtain env p1 where s: "setup_build_environment h use_aggressive_opts p = (env, p1)"
    by (cases "setup_build_environment h use_aggressive_opts p")
  let ?p2 = "set_flags env (get_rust_optimization_flags use_aggressive_opts) p1"
  from electrs_env_git_only [OF assms(1) s] have g: "git_only p ?p2" by simp
  from git_only_alloc [OF g assms(1)] have a2: "os_environ < next_addr ?p2" .
  from g have d2: "dicts ?p2 os_environ = dicts p os_environ" by (simp add: git_only_def)
  from toolchain_then_gate_abort [OF a2 assms(2) d2 assms(3)]
  obtain e p' where "compile_electrs_source h version build_dir cores use_aggressive_opts p = (Inl e, p')"
    and "git_only ?p2 p'"
    unfolding compile_electrs_source_unfold [OF s] by blast
  with g show ?thesis by (blast intro: git_only_trans)
qed


lemma electrs_toolchain_outcomes:
  assumes "setup_build_environment h use_aggressive_opts p = (env, p1)"
  defines "p2 \<equiv> set_flags env (get_rust_optimization_flags use_aggressive_opts) p1"
  shows "commands_run p2 = commands_run p
    \<and> (cargo_version h (dicts p2 env) = Spawn_error \<longrightarrow>
         compile_electrs_source h version build_dir cores use_aggressive_opts p = (Inl OSError, p2))
    \<and> (\<forall>rc out. cargo_version h (dicts p2 env) = Completed rc out \<and> rc \<noteq> 0 \<longrightarrow>
         compile_electrs_source h version build_dir cores use_aggressive_opts p
           = (Inl (RuntimeError ''Cargo not found - cannot compile Electrs''),
              p2\<lparr>trace := trace p2 @ [Showed_error ''Rust Not Found'']\<rparr>))
    \<and> (\<forall>out. cargo_version h (dicts p2 env) = Completed 0 out
                \<and> rustc_version h (dicts p2 env) = Spawn_error \<longrightarrow>
         compile_electrs_source h version build_dir cores use_aggressive_opts p = (Inl OSError, p2))
    \<and> (\<forall>out rc out'. cargo_version h (dicts p2 env) = Completed 0 out
                \<and> rustc_version h (dicts p2 env) = Completed rc out' \<longrightarrow>
         check_rust h env p2
           = (Inr (), if rc = 0 then p2 else p2\<lparr>trace := trace p2 @ [Logged Rustc_check_failed]\<rparr>))"
proof -
  have tr: "trace p2 = trace p1" unfolding p2_def by (rule trace_set_flags)
  have "trace p1 = trace p"
  proof -
    let ?env = "next_addr p"
    let ?q = "p\<lparr>dicts := (dicts p)(?env := dicts p os_environ), next_addr := Suc ?env\<rparr>"
    have copy: "dict_copy os_environ p = (?env, ?q)" by (simp add: dict_copy_def)
    from assms(1) show ?thesis
      unfolding setup_build_environment_def copy Let_def prod.case
      by (auto simp: trace_set_flags trace_llvm_setup trace_dict_set
          simp del: llvm_setup.simps set_flags.simps)
  qed
  with tr have c: "commands_run p2 = commands_run p" by (simp add: commands_run_def)
  note unfold = compile_electrs_source_unfold [OF assms(1), folded p2_def]
  have a: "compile_electrs_source h version build_dir cores use_aggressive_opts p = (Inl e, q)"
    if "check_rust h env p2 = (Inl e, q)" for e q
    unfolding unfold using that by (simp add: and_then_def)
  have 1: "compile_electrs_source h version build_dir cores use_aggressive_opts p = (Inl OSError, p2)"
    if "cargo_version h (dicts p2 env) = Spawn_error"
    by (rule a) (simp add: check_rust_cases that)
  have 2: "compile_electrs_source h version build_dir cores use_aggressive_opts p
           = (Inl (RuntimeError ''Cargo not found - cannot compile Electrs''),
              p2\<lparr>trace := trace p2 @ [Showed_error ''Rust Not Found'']\<rparr>)"
    if "cargo_version h (dicts p2 env) = Completed rc out \<and> rc \<noteq> 0" for rc out
    by (rule a) (simp add: check_rust_cases that)
  have 3: "compile_electrs_source h version build_dir cores use_aggressive_opts p = (Inl OSError, p2)"
    if "cargo_version h (dicts p2 env) = Completed 0 out
          \<and> rustc_version h (dicts p2 env) = Spawn_error" for out
    by (rule a) (simp add: check_rust_cases that)
  have 4: "check_rust h env p2
           = (Inr (), if rc = 0 then p2 else p2\<lparr>trace := trace p2 @ [Logged Rustc_check_failed]\<rparr>)"
    if "cargo_version h (dicts p2 env) = Completed 0 out
          \<and> rustc_version h (dicts p2 env) = Completed rc out'" for out rc out'
    by (simp add: check_rust_cases that)
  from c 1 2 3 4 show ?thesis by blast
qed


text \<open>
  C3. At the head of \<^verbatim>\<open>compile_electrs_source\<close>, before the source is fetched and before
  any command is run, \<^verbatim>\<open>cargo\<close> and \<^verbatim>\<open>rustc\<close> are both started in the composed
  environment. When either of them cannot be resolved there (the program cannot be
  started), the pipeline ends at once in an exception, the \<^verbatim>\<open>OSError\<close> of the failed
  start or the \<^verbatim>\<open>Cargo not found\<close> error, and no command has been run: neither the
  checkout nor the release build is attempted.
\<close>

theorem rust_toolchain_check:
  assumes "setup_build_environment h use_aggressive_opts p = (env, p1)"
    and "cargo_version h (dicts (set_flags env (get_rust_optimization_flags use_aggressive_opts) p1) env)
           = Spawn_error
         \<or> rustc_version h (dicts (set_flags env (get_rust_optimization_flags use_aggressive_opts) p1) env)
           = Spawn_error"
  shows "\<exists>e p'. compile_electrs_source h version build_dir cores use_aggressive_opts p = (Inl e, p')
           \<and> (e = OSError \<or> e = RuntimeError ''Cargo not found - cannot compile Electrs'')
           \<and> commands_run p' = commands_run p"
proof -
  let ?p2 = "set_flags env (get_rust_optimization_flags use_aggressive_opts) p1"
  let ?run = "compile_electrs_source h version build_dir cores use_aggressive_opts p"
  note t = electrs_toolchain_outcomes [OF assms(1), of version build_dir cores]
  have c: "commands_run ?p2 = commands_run p" by (rule t [THEN conjunct1])
  show ?thesis
  proof (cases "cargo_version h (dicts ?p2 env)")
    case Spawn_error
    from t [THEN conjunct2, THEN conjunct1, rule_format, OF this]
    have "?run = (Inl OSError, ?p2)" .
    with c show ?thesis by (intro exI [of _ OSError] exI [of _ ?p2]) simp
  next
    case (Completed rc out)
    show ?thesis
    proof (cases "rc = 0")
      case False
      with Completed have "cargo_version h (dicts ?p2 env) = Completed rc out \<and> rc \<noteq> 0" by simp
      from t [THEN conjunct2, THEN conjunct2, THEN conjunct1, rule_format, OF this]
      have r: "?run = (Inl (RuntimeError ''Cargo not found - cannot compile Electrs''),
              ?p2\<lparr>trace := trace ?p2 @ [Showed_error ''Rust Not Found'']\<rparr>)" .
      have "commands_run (?p2\<lparr>trace := trace ?p2 @ [Showed_error ''Rust Not Found'']\<rparr>)
          = commands_run ?p2" by (simp add: commands_run_def)
      with c r show ?thesis
        by (intro exI [of _ "RuntimeError ''Cargo not found - cannot compile Electrs''"]
            exI [of _ "?p2\<lparr>trace := trace ?p2 @ [Showed_error ''Rust Not Found'']\<rparr>"]) simp
    next
      case True
      with Completed assms(2) have "cargo_version h (dicts ?p2 env) = Completed 0 out
          \<and> rustc_version h (dicts ?p2 env) = Spawn_error" by simp
      from t [THEN conjunct2, THEN conjunct2, THEN conjunct2, THEN conjunct1, rule_format, OF this]
      have "?run = (Inl OSError, ?p2)" .
      with c show ?thesis by (intro exI [of _ OSError] exI [of _ ?p2]) simp
    qed
  qed
qed

theorem rust_toolchain_check_witness:
  "(\<exists>e p'. compile_electrs_source (plain_host\<lparr>rustc_version := (\<lambda>_. Spawn_error)\<rparr>)
           ''v0.10.5'' ''/b'' 4 False (module_init plain_host fresh_process) = (Inl e, p')
       \<and> commands_run p' = [])
   \<and> (\<exists>e p'. compile_electrs_source (plain_host\<lparr>cargo_version := (\<lambda>_. Spawn_error)\<rparr>)
           ''v0.10.5'' ''/b'' 4 False (module_init plain_host fresh_process) = (Inl e, p')
       \<and> commands_run p' = [])"
proof -
  let ?p = "module_init plain_host fresh_process"
  have none: "commands_run ?p = []"
    by (simp add: commands_run_def module_init_def dict_set_def fresh_process_def)
  have one: "\<exists>e p'. compile_electrs_source h ''v0.10.5'' ''/b'' 4 False ?p = (Inl e, p')
       \<and> commands_run p' = []"
    if "cargo_version h = (\<lambda>_. Spawn_error) \<or> rustc_version h = (\<lambda>_. Spawn_error)" for h
  proof -
    obtain env p1 where s: "setup_build_environment h False ?p = (env, p1)"
      by (cases "setup_build_environment h False ?p")
    from that have "cargo_version h (dicts (set_flags env (get_rust_optimization_flags False) p1) env)
           = Spawn_error
         \<or> rustc_version h (dicts (set_flags env (get_rust_optimization_flags False) p1) env)
           = Spawn_error" by auto
    from rust_toolchain_check [OF s this, of "''v0.10.5''" "''/b''" 4]
    obtain e p' where "compile_electrs_source h ''v0.10.5'' ''/b'' 4 False ?p = (Inl e, p')"
      "commands_run p' = commands_run ?p" by blast
    with none show ?thesis by (intro exI [of _ e] exI [of _ p']) simp
  qed
  have "\<exists>e p'. compile_electrs_source (plain_host\<lparr>rustc_version := (\<lambda>_. Spawn_error)\<rparr>)
           ''v0.10.5'' ''/b'' 4 False ?p = (Inl e, p') \<and> commands_run p' = []"
    by (rule one) simp
  moreover
  have "\<exists>e p'. compile_electrs_source (plain_host\<lparr>cargo_version := (\<lambda>_. Spawn_error)\<rparr>)
           ''v0.10.5'' ''/b'' 4 False ?p = (Inl e, p') \<and> commands_run p' = []"
    by (rule one) simp
  ultimately show ?thesis by (rule conjI)
qed

text \<open>
  What the check does not cover: a \<^verbatim>\<open>rustc\<close> that starts and exits with a code other
  than 0 is logged as a warning only, and the pipeline goes on to the release build.
\<close>

lemma rustc_nonzero_exit_proceeds:
  "fst (compile_electrs_source
          (plain_host\<lparr>path_exists := (\<lambda>_. True), rustc_version := (\<lambda>_. Completed 1 [])\<rparr>)
          ''v0.10.5'' ''/b'' 4 False (module_init plain_host fresh_process))
     = Inr ''/b/binaries/electrs-0.10.5''
   \<and> commands_run (snd (compile_electrs_source
          (plain_host\<lparr>path_exists := (\<lambda>_. True), rustc_version := (\<lambda>_. Completed 1 [])\<rparr>)
          ''v0.10.5'' ''/b'' 4 False (module_init plain_host fresh_process)))
     = [''git fetch --depth 1 origin tag v0.10.5'', ''git checkout v0.10.5'',
        ''cargo build --release --jobs 4'']"
proof -
  let ?h = "plain_host\<lparr>path_exists := (\<lambda>_. True), rustc_version := (\<lambda>_. Completed 1 [])\<rparr>"
  let ?p = "module_init plain_host fresh_process"
  obtain env p1 where s: "setup_build_environment ?h False ?p = (env, p1)"
    by (cases "setup_build_environment ?h False ?p")
  let ?p2 = "set_flags env (get_rust_optimization_flags False) p1"
  have alloc: "os_environ < next_addr ?p"
    by (simp add: module_init_def dict_set_def fresh_process_def os_environ_def)
  have "trace ?p = []"
    by (simp add: module_init_def dict_set_def fresh_process_def)
  with electrs_env_git_only [OF alloc s, of "get_rust_optimization_flags False"]
  have tr: "trace ?p2 = []" by simp
  have fields: "cargo_version ?h = (\<lambda>_. Completed 0 ''cargo 1.80.0'')"
    "rustc_version ?h = (\<lambda>_. Completed 1 [])"
    "makedirs_raises ?h = (\<lambda>_. False)" "path_exists ?h = (\<lambda>_. True)"
    "popen ?h = (\<lambda>_ _ _. Completed 0 [])"
    "git_rev_parse_head ?h = (\<lambda>_ _. Completed 0 ''4a3f1c'')"
    "git_rev_list ?h = (\<lambda>_ _ _. Completed 0 ''4a3f1c'')"
    "copy2_raises ?h = (\<lambda>_ _. False)" "chmod_raises ?h = (\<lambda>_. False)"
    by (simp_all add: plain_host_def)
  have "compile_electrs_source ?h ''v0.10.5'' ''/b'' 4 False ?p =
      (Inr ''/b/binaries/electrs-0.10.5'',
       ?p2\<lparr>trace := [Logged Rustc_check_failed, Made_dirs ''/b'',
          Ran ''git fetch --depth 1 origin tag v0.10.5'' (Some ''/b/electrs-0.10.5''),
          Ran ''git checkout v0.10.5'' (Some ''/b/electrs-0.10.5''),
          Ran ''cargo build --release --jobs 4'' (Some ''/b/electrs-0.10.5''),
          Made_dirs ''/b/binaries/electrs-0.10.5'',
          Copy2 ''/b/electrs-0.10.5/target/release/electrs'' ''/b/binaries/electrs-0.10.5/electrs'',
          Chmod ''/b/binaries/electrs-0.10.5/electrs'' 493]\<rparr>)"
    unfolding compile_electrs_source_unfold [OF s]
    by (simp add: and_then_def check_rust_cases fields tr makedirs_def acquire_source_def
        run_command_def integrity_gate_result verify_git_commit_def copy_binaries_def
        done_with_def raise_def emit_def Let_def path_join_def basename_def lstrip_v_def py_str_4)
  then show ?thesis by (simp add: commands_run_def)
qed

text \<open>
  C4. \<^verbatim>\<open>verify_git_commit\<close> returns true exactly when both \<^verbatim>\<open>git\<close> calls succeed and
  print the same commit. The gate after the checkout lets the pipeline go on exactly when
  the commit is verified or the user answers yes to the dialog, which is shown whenever
  the commit is not verified; otherwise it raises \<^verbatim>\<open>Source verification failed\<close>. With
  the commit not verified and no override, both pipelines end in an exception and have
  run \<^verbatim>\<open>git\<close> commands at most: nothing is configured or built.
\<close>

theorem integrity_verification_gate:
  "(verify_git_commit h repo_dir expected_tag p \<longleftrightarrow>
      (\<exists>out1 out2. git_rev_parse_head h repo_dir (dicts p os_environ) = Completed 0 out1
         \<and> git_rev_list h expected_tag repo_dir (dicts p os_environ) = Completed 0 out2
         \<and> strip out1 = strip out2))
   \<and> integrity_gate h repo_dir project_name expected_tag p =
       (if verify_git_commit h repo_dir expected_tag p then (Inr (), p)
        else (if askyesno h ''Source Verification Warning'' then Inr ()
              else Inl (RuntimeError ''Source verification failed''),
              p\<lparr>trace := trace p @ [Logged (Verification_failed project_name),
                                      Asked ''Source Verification Warning'']\<rparr>))
   \<and> (os_environ < next_addr p
        \<and> \<not> verify_git_commit h (path_join build_dir (''bitcoin-'' @ lstrip_v version)) version p
        \<and> \<not> askyesno h ''Source Verification Warning''
      \<longrightarrow> (\<exists>e p'. compile_bitcoin_source h version build_dir cores use_aggressive_opts p = (Inl e, p')
             \<and> git_only p p'))
   \<and> (os_environ < next_addr p
        \<and> \<not> verify_git_commit h (path_join build_dir (''electrs-'' @ lstrip_v version)) version p
        \<and> \<not> askyesno h ''Source Verification Warning''
      \<longrightarrow> (\<exists>e p'. compile_electrs_source h version build_dir cores use_aggressive_opts p = (Inl e, p')
             \<and> git_only p p'))"
proof (intro conjI impI)
  show "verify_git_commit h repo_dir expected_tag p \<longleftrightarrow>
      (\<exists>out1 out2. git_rev_parse_head h repo_dir (dicts p os_environ) = Completed 0 out1
         \<and> git_rev_list h expected_tag repo_dir (dicts p os_environ) = Completed 0 out2
         \<and> strip out1 = strip out2)"
    by (rule verify_git_commit_iff)
  show "integrity_gate h repo_dir project_name expected_tag p =
       (if verify_git_commit h repo_dir expected_tag p then (Inr (), p)
        else (if askyesno h ''Source Verification Warning'' then Inr ()
              else Inl (RuntimeError ''Source verification failed''),
              p\<lparr>trace := trace p @ [Logged (Verification_failed project_name),
                                      Asked ''Source Verification Warning'']\<rparr>))"
    by (rule integrity_gate_result)
next
  assume a: "os_environ < next_addr p
        \<and> \<not> verify_git_commit h (path_join build_dir (''bitcoin-'' @ lstrip_v version)) version p
        \<and> \<not> askyesno h ''Source Verification Warning''"
  show "\<exists>e p'. compile_bitcoin_source h version build_dir cores use_aggressive_opts p = (Inl e, p')
             \<and> git_only p p'"
    by (rule bitcoin_gate [OF a [THEN conjunct1] a [THEN conjunct2, THEN conjunct1]
          a [THEN conjunct2, THEN conjunct2]])
next
  assume a: "os_environ < next_addr p
        \<and> \<not> verify_git_commit h (path_join build_dir (''electrs-'' @ lstrip_v version)) version p
        \<and> \<not> askyesno h ''Source Verification Warning''"
  show "\<exists>e p'. compile_electrs_source h version build_dir cores use_aggressive_opts p = (Inl e, p')
             \<and> git_only p p'"
    by (rule electrs_gate [OF a [THEN conjunct1] a [THEN conjunct2, THEN conjunct1]
          a [THEN conjunct2, THEN conjunct2]])
qed

theorem integrity_verification_gate_witness:
  "\<not> verify_git_commit (plain_host\<lparr>git_rev_list := (\<lambda>_ _ _. Completed 0 ''ffff'')\<rparr>)
       ''/b/bitcoin-24.2'' ''v24.2'' (module_init plain_host fresh_process)
   \<and> (\<exists>e p'. compile_bitcoin_source (plain_host\<lparr>git_rev_list := (\<lambda>_ _ _. Completed 0 ''ffff'')\<rparr>)
           ''v24.2'' ''/b'' 4 False (module_init plain_host fresh_process) = (Inl e, p')
         \<and> git_only (module_init plain_host fresh_process) p')
   \<and> (\<exists>e p'. compile_electrs_source (plain_host\<lparr>git_rev_list := (\<lambda>_ _ _. Completed 0 ''ffff'')\<rparr>)
           ''v24.2'' ''/b'' 4 False (module_init plain_host fresh_process) = (Inl e, p')
         \<and> git_only (module_init plain_host fresh_process) p')"
proof -
  let ?h = "plain_host\<lparr>git_rev_list := (\<lambda>_ _ _. Completed 0 ''ffff'')\<rparr>"
  let ?p = "module_init plain_host fresh_process"
  have alloc: "os_environ < next_addr ?p"
    by (simp add: module_init_def dict_set_def fresh_process_def os_environ_def)
  have s1: "strip ''4a3f1c'' = ''4a3f1c''" and s2: "strip ''ffff'' = ''ffff''"
    by (simp_all add: strip_def is_space_def)
  have nv: "\<not> verify_git_commit ?h src ''v24.2'' ?p" for src
    by (simp add: verify_git_commit_def plain_host_def s1 s2)
  have no: "\<not> askyesno ?h ''Source Verification Warning''"
    by (simp add: plain_host_def)
  have b: "path_join ''/b'' (''bitcoin-'' @ lstrip_v ''v24.2'') = ''/b/bitcoin-24.2''"
    by (simp add: path_join_def lstrip_v_def)
  note g = integrity_verification_gate [of ?h "''/b/bitcoin-24.2''" "''v24.2''" ?p
      "''Bitcoin Core''" "''/b''" "''v24.2''" 4 False]
  have "\<exists>e p'. compile_bitcoin_source ?h ''v24.2'' ''/b'' 4 False ?p = (Inl e, p') \<and> git_only ?p p'"
    by (rule g [THEN conjunct2, THEN conjunct2, THEN conjunct1, THEN mp])
       (intro conjI alloc nv no)
  moreover
  have "\<exists>e p'. compile_electrs_source ?h ''v24.2'' ''/b'' 4 False ?p = (Inl e, p') \<and> git_only ?p p'"
    by (rule g [THEN conjunct2, THEN conjunct2, THEN conjunct2, THEN mp])
       (intro conjI alloc nv no)
  ultimately show ?thesis using nv [of "''/b/bitcoin-24.2''"] by (intro conjI)
qed

end
